theory Spec2Isabelle
  imports Complex_Main
begin

section \<open>JavaScript values\<close>

text \<open>
  The values the sanitizer handles are those of parsed JSON, together with
  \<open>undefined\<close> (a read of an absent property) and \<open>NaN\<close> (what the number
  parsers give on a string without digits). A finite number is identified with the
  rational it denotes: rounding, overflow to an infinity and the sign of zero are not
  represented. An object is the list of its own properties in insertion order (the
  engine lists the keys that are array indexes first; that reordering is not
  represented). Functions, and with them the properties that an object
  inherits from its prototype, are not among the values.
\<close>

datatype jsval =
    JUndefined
  | JNull
  | JBool bool
  | JNum rat
  | JNaN
  | JStr string
  | JArr "jsval list"
  | JObj "(string \<times> jsval) list"

text \<open>
  \<open>TypeError\<close> is the exception the engine raises. \<open>Unmodelled\<close> marks the places
  where the source leaves the fragment embedded here (a property inherited from a
  prototype, the rendering of a non-integral number inside a parser): nothing is
  claimed about the code there.
\<close>

datatype js_error = TypeError | Unmodelled

datatype SanitizerError =
    InvalidPayload
  | InvalidSpecRule
  | InvalidStructureValue
  | InvalidValue
  | KeyDoesNotExist
  | ExtraField

fun error_name :: "SanitizerError \<Rightarrow> string" where
  "error_name InvalidPayload = ''InvalidPayload''"
| "error_name InvalidSpecRule = ''InvalidSpecRule''"
| "error_name InvalidStructureValue = ''InvalidStructureValue''"
| "error_name InvalidValue = ''InvalidValue''"
| "error_name KeyDoesNotExist = ''KeyDoesNotExist''"
| "error_name ExtraField = ''ExtraField''"

section \<open>Strings and numbers\<close>

definition is_digit :: "char \<Rightarrow> bool" where
  "is_digit c = (c \<in> set ''0123456789'')"

definition digit_val :: "char \<Rightarrow> nat" where
  "digit_val c = of_char c - 48"

definition nat_of_digits :: "string \<Rightarrow> nat" where
  "nat_of_digits s = foldl (\<lambda>n c. 10 * n + digit_val c) 0 s"

definition digit_char :: "nat \<Rightarrow> char" where
  "digit_char d = ''0123456789'' ! d"

fun digits_of :: "nat \<Rightarrow> string" where
  "digits_of n = (if n < 10 then [digit_char n] else digits_of (n div 10) @ [digit_char (n mod 10)])"

declare digits_of.simps [simp del]

text \<open>Dropping the zeros at the end of a digit string (for the exponent notation).\<close>

definition strip_zeros :: "string \<Rightarrow> string" where
  "strip_zeros s = rev (dropWhile (\<lambda>c. c = CHR ''0'') (rev s))"

definition is_integral :: "rat \<Rightarrow> bool" where
  "is_integral r = (of_int \<lfloor>r\<rfloor> = r)"

text \<open>
  \<open>String(n)\<close> for an integral number: the decimal digits below \<open>10^21\<close>, the
  exponent notation from there on. A non-integral number renders with a \<open>.\<close> or an
  \<open>e\<close>; that string is not computed here (\<open>None\<close>).
\<close>

definition int_to_string :: "int \<Rightarrow> string" where
  "int_to_string i =
     (let ds = digits_of (nat \<bar>i\<bar>); sign = (if i < 0 then ''-'' else '''')
      in if \<bar>i\<bar> < 10 ^ 21 then sign @ ds
         else let m = strip_zeros ds
              in sign @ [hd m] @ (if tl m = [] then [] else CHR ''.'' # tl m)
                   @ ''e+'' @ digits_of (length ds - 1))"

definition num_to_string :: "rat \<Rightarrow> string option" where
  "num_to_string r = (if is_integral r then Some (int_to_string \<lfloor>r\<rfloor>) else None)"

fun join :: "string \<Rightarrow> string list \<Rightarrow> string" where
  "join sep [] = []"
| "join sep [x] = x"
| "join sep (x # y # ys) = x @ sep @ join sep (y # ys)"

text \<open>
  \<open>String(v)\<close>. An array renders its elements separated by commas, \<open>null\<close> and
  \<open>undefined\<close> elements as the empty string.
\<close>

fun to_string :: "jsval \<Rightarrow> string option"
and elem_strings :: "jsval list \<Rightarrow> string list option" where
  "to_string JUndefined = Some ''undefined''"
| "to_string JNull = Some ''null''"
| "to_string (JBool b) = Some (if b then ''true'' else ''false'')"
| "to_string (JNum r) = num_to_string r"
| "to_string JNaN = Some ''NaN''"
| "to_string (JStr s) = Some s"
| "to_string (JArr xs) = map_option (join '','') (elem_strings xs)"
| "to_string (JObj kvs) = Some ''[object Object]''"
| "elem_strings [] = Some []"
| "elem_strings (x # xs) =
     (case (if x = JNull \<or> x = JUndefined then Some [] else to_string x) of
        None \<Rightarrow> None
      | Some s \<Rightarrow> map_option ((#) s) (elem_strings xs))"

fun truthy :: "jsval \<Rightarrow> bool" where
  "truthy JUndefined = False"
| "truthy JNull = False"
| "truthy (JBool b) = b"
| "truthy (JNum r) = (r \<noteq> 0)"
| "truthy JNaN = False"
| "truthy (JStr s) = (s \<noteq> [])"
| "truthy (JArr xs) = True"
| "truthy (JObj kvs) = True"

section \<open>Regular expressions\<close>

text \<open>
  The patterns of the source use character classes, sequence, alternative, the
  optional \<open>?\<close>, \<open>+\<close> on a class and the bounded repetition \<open>{7,10}\<close>.
  \<open>rmatch r s\<close> lists what is left of \<open>s\<close> after each way of matching \<open>r\<close> at
  its start; a pattern anchored by \<open>^\<close> and \<open>$\<close> accepts \<open>s\<close> when one way
  leaves nothing.
\<close>

datatype rexp =
    Eps
  | Cls "char list"
  | Many "char list"
  | Seq rexp rexp
  | Alt rexp rexp
  | Opt rexp

fun many :: "char list \<Rightarrow> string \<Rightarrow> string list" where
  "many cs [] = [] # []"
| "many cs (c # s) = (c # s) # (if c \<in> set cs then many cs s else [])"

fun rmatch :: "rexp \<Rightarrow> string \<Rightarrow> string list" where
  "rmatch Eps s = [s]"
| "rmatch (Cls cs) s = (case s of [] \<Rightarrow> [] | c # t \<Rightarrow> if c \<in> set cs then [t] else [])"
| "rmatch (Many cs) s = many cs s"
| "rmatch (Seq a b) s = concat (map (rmatch b) (rmatch a s))"
| "rmatch (Alt a b) s = rmatch a s @ rmatch b s"
| "rmatch (Opt a) s = rmatch a s @ [s]"

definition re_test :: "rexp \<Rightarrow> string \<Rightarrow> bool" where
  "re_test r s = ([] \<in> set (rmatch r s))"

primrec times :: "nat \<Rightarrow> rexp \<Rightarrow> rexp" where
  "times 0 r = Eps"
| "times (Suc n) r = Seq r (times n r)"

primrec up_to :: "nat \<Rightarrow> rexp \<Rightarrow> rexp" where
  "up_to 0 r = Eps"
| "up_to (Suc n) r = Opt (Seq r (up_to n r))"

definition Chr :: "char \<Rightarrow> rexp" where
  "Chr c = Cls [c]"

definition digit :: rexp where
  "digit = Cls ''0123456789''"

definition plus_digits :: rexp where
  "plus_digits = Seq digit (Many ''0123456789'')"

text \<open>\<^verbatim>\<open>/^\d+$/\<close>\<close>

definition int_re :: rexp where
  "int_re = plus_digits"

text \<open>\<^verbatim>\<open>/^\d+\.\d+$/\<close>\<close>

definition float_re :: rexp where
  "float_re = Seq plus_digits (Seq (Chr CHR ''.'') plus_digits)"

text \<open>\<^verbatim>\<open>/^((8|7|\+7)[\- ]?)(\(?\d{3}\)?[\- ]?)[\d\- ]{7,10}$/\<close>\<close>

definition phone_re :: rexp where
  "phone_re =
     Seq (Seq (Alt (Chr CHR ''8'') (Alt (Chr CHR ''7'') (Seq (Chr CHR ''+'') (Chr CHR ''7''))))
              (Opt (Cls ''- '')))
    (Seq (Seq (Opt (Chr CHR ''('')) (Seq (times 3 digit) (Seq (Opt (Chr CHR '')'')) (Opt (Cls ''- '')))))
         (Seq (times 7 (Cls ''0123456789- '')) (up_to 3 (Cls ''0123456789- ''))))"

section \<open>Predicates\<close>

fun isString :: "jsval \<Rightarrow> bool" where
  "isString (JStr s) = True"
| "isString v = False"

text \<open>\<open>Number(value) === value\<close> holds of numbers other than \<open>NaN\<close>.\<close>

fun isInteger :: "jsval \<Rightarrow> bool" where
  "isInteger (JNum r) = is_integral r"
| "isInteger v = False"

fun isFloat :: "jsval \<Rightarrow> bool" where
  "isFloat (JNum r) = (\<not> is_integral r)"
| "isFloat v = False"

text \<open>
  \<open>reg.test(value)\<close> converts its argument to a string first. The rendering of a
  non-integral number holds a \<open>.\<close> or an \<open>e\<close>, which none of the patterns
  accepts in a number.
\<close>

definition re_test_val :: "rexp \<Rightarrow> jsval \<Rightarrow> bool" where
  "re_test_val r v = (case to_string v of None \<Rightarrow> False | Some s \<Rightarrow> re_test r s)"

definition isPhone :: "jsval \<Rightarrow> bool" where
  "isPhone v = re_test_val phone_re v"

fun isArray :: "jsval \<Rightarrow> bool" where
  "isArray (JArr xs) = True"
| "isArray v = False"

section \<open>Number parsers\<close>

definition is_space :: "char \<Rightarrow> bool" where
  "is_space c = (c \<in> set [CHR '' '', CHR 0x09, CHR 0x0A, CHR 0x0B, CHR 0x0C, CHR 0x0D])"

text \<open>
  \<open>parseInt(s, 10)\<close>: white space, an optional sign, then the longest run of digits;
  \<open>NaN\<close> when there is no digit.
\<close>

definition parseInt_str :: "string \<Rightarrow> jsval" where
  "parseInt_str s =
     (let t = dropWhile is_space s;
          neg = (t \<noteq> [] \<and> hd t = CHR ''-'');
          u = (if t \<noteq> [] \<and> (hd t = CHR ''-'' \<or> hd t = CHR ''+'') then tl t else t);
          ds = takeWhile is_digit u
      in if ds = [] then JNaN
         else JNum (if neg then - of_nat (nat_of_digits ds) else of_nat (nat_of_digits ds)))"

definition parseInt :: "jsval \<Rightarrow> js_error + jsval" where
  "parseInt v = (case to_string v of None \<Rightarrow> Inl Unmodelled | Some s \<Rightarrow> Inr (parseInt_str s))"

text \<open>
  \<open>parseFloat(s)\<close>: white space, an optional sign, digits with an optional fraction.
  An exponent part or the word \<open>Infinity\<close> is outside the fragment.
\<close>

definition parseFloat_str :: "string \<Rightarrow> js_error + jsval" where
  "parseFloat_str s =
     (let t = dropWhile is_space s;
          neg = (t \<noteq> [] \<and> hd t = CHR ''-'');
          u = (if t \<noteq> [] \<and> (hd t = CHR ''-'' \<or> hd t = CHR ''+'') then tl t else t);
          ip = takeWhile is_digit u;
          r1 = dropWhile is_digit u;
          fp = (if r1 \<noteq> [] \<and> hd r1 = CHR ''.'' then takeWhile is_digit (tl r1) else []);
          r2 = (if r1 \<noteq> [] \<and> hd r1 = CHR ''.'' then dropWhile is_digit (tl r1) else r1);
          m = of_nat (nat_of_digits ip) + of_nat (nat_of_digits fp) / 10 ^ length fp
      in if ip = [] \<and> fp = [] then (if take 8 u = ''Infinity'' then Inl Unmodelled else Inr JNaN)
         else if r2 \<noteq> [] \<and> (hd r2 = CHR ''e'' \<or> hd r2 = CHR ''E'') then Inl Unmodelled
         else Inr (JNum (if neg then - m else m)))"

text \<open>A number renders to a string that parses back to the same number.\<close>

definition parseFloat :: "jsval \<Rightarrow> js_error + jsval" where
  "parseFloat v =
     (case v of
        JNum r \<Rightarrow> Inr (JNum r)
      | _ \<Rightarrow> (case to_string v of None \<Rightarrow> Inl Unmodelled | Some s \<Rightarrow> parseFloat_str s))"

section \<open>Rules\<close>

text \<open>
  A call of \<open>sanitize(value, logger)\<close> either throws, or returns a value after
  calling \<open>logger\<close> some number of times; the model returns the calls in order, each
  with its error and its index list (absent for a scalar rule).
\<close>

type_synonym call = "SanitizerError \<times> nat list option"

type_synonym outcome = "js_error + (call list \<times> jsval)"

definition IntegerRule_sanitize :: "jsval \<Rightarrow> outcome" where
  "IntegerRule_sanitize v =
     (let invalid = (\<not> isInteger v \<and> (\<not> isString v \<or> \<not> re_test_val int_re v));
          calls = (if invalid then [(InvalidValue, None)] else []);
          value = (if invalid then JNum 0 else v)
      in case parseInt value of Inl e \<Rightarrow> Inl e | Inr n \<Rightarrow> Inr (calls, n))"

definition FloatRule_sanitize :: "jsval \<Rightarrow> outcome" where
  "FloatRule_sanitize v =
     (let invalid = (\<not> isFloat v \<and> (\<not> isString v \<or> \<not> re_test_val float_re v));
          calls = (if invalid then [(InvalidValue, None)] else []);
          value = (if invalid then JNum 0 else v)
      in case parseFloat value of Inl e \<Rightarrow> Inl e | Inr n \<Rightarrow> Inr (calls, n))"

definition StringRule_sanitize :: "jsval \<Rightarrow> outcome" where
  "StringRule_sanitize v =
     (if \<not> isString v then Inr ([(InvalidValue, None)], JStr []) else Inr ([], v))"

text \<open>\<^verbatim>\<open>s.replace(/^8/, '7')\<close> and \<^verbatim>\<open>s.replace(/\D+/g, '')\<close>\<close>

fun replace_leading_8 :: "string \<Rightarrow> string" where
  "replace_leading_8 [] = []"
| "replace_leading_8 (c # s) = (if c = CHR ''8'' then CHR ''7'' # s else c # s)"

definition strip_non_digits :: "string \<Rightarrow> string" where
  "strip_non_digits s = filter is_digit s"

text \<open>Only a string has a \<open>replace\<close> method: on any other value the call throws.\<close>

definition PhoneRule_sanitize :: "jsval \<Rightarrow> outcome" where
  "PhoneRule_sanitize v =
     (let invalid = (\<not> isPhone v);
          calls = (if invalid then [(InvalidValue, None)] else []);
          value = (if invalid then JStr [] else v)
      in case value of
           JStr s \<Rightarrow> Inr (calls, JStr (strip_non_digits (replace_leading_8 s)))
         | _ \<Rightarrow> Inl TypeError)"

text \<open>The callback of \<open>TypedArrayRule\<close> pushes the index when its argument is truthy.\<close>

definition truthy_error :: "SanitizerError \<Rightarrow> bool" where
  "truthy_error e = (error_name e \<noteq> [])"

text \<open>
  \<open>array.map\<close> with the callback that pushes onto \<open>invalidIndexes\<close>: the elements
  are sanitized in index order, and an exception of the inner rule ends the call.
\<close>

fun map_items ::
  "(jsval \<Rightarrow> outcome) \<Rightarrow> nat \<Rightarrow> jsval list \<Rightarrow> nat list \<Rightarrow> js_error + (nat list \<times> jsval list)" where
  "map_items inner index [] invalidIndexes = Inr (invalidIndexes, [])"
| "map_items inner index (item # rest) invalidIndexes =
     (case inner item of
        Inl e \<Rightarrow> Inl e
      | Inr (calls, v) \<Rightarrow>
          (case map_items inner (Suc index) rest
                  (invalidIndexes @ map (\<lambda>c. index) (filter (\<lambda>c. truthy_error (fst c)) calls)) of
             Inl e \<Rightarrow> Inl e
           | Inr (idxs, vs) \<Rightarrow> Inr (idxs, v # vs)))"

definition TypedArrayRule_sanitize :: "(jsval \<Rightarrow> outcome) \<Rightarrow> jsval \<Rightarrow> outcome" where
  "TypedArrayRule_sanitize inner array =
     (case array of
        JArr xs \<Rightarrow>
          (case map_items inner 0 xs [] of
             Inl e \<Rightarrow> Inl e
           | Inr (invalidIndexes, ys) \<Rightarrow>
               if invalidIndexes \<noteq> []
               then Inr ([(InvalidStructureValue, Some invalidIndexes)], JArr [])
               else Inr ([], JArr ys))
      | _ \<Rightarrow> Inr ([(InvalidValue, Some [])], JArr []))"

text \<open>The rule instances that the classes of the source can build.\<close>

datatype rule = IntegerRule | FloatRule | StringRule | PhoneRule | TypedArrayRule rule

primrec sanitize :: "rule \<Rightarrow> jsval \<Rightarrow> outcome" where
  "sanitize IntegerRule = IntegerRule_sanitize"
| "sanitize FloatRule = FloatRule_sanitize"
| "sanitize StringRule = StringRule_sanitize"
| "sanitize PhoneRule = PhoneRule_sanitize"
| "sanitize (TypedArrayRule r) = TypedArrayRule_sanitize (sanitize r)"

section \<open>Objects and key paths\<close>

definition obj_has :: "string \<Rightarrow> (string \<times> 'a) list \<Rightarrow> bool" where
  "obj_has k kvs = (k \<in> set (map fst kvs))"

definition obj_get :: "string \<Rightarrow> (string \<times> jsval) list \<Rightarrow> jsval" where
  "obj_get k kvs = (case map_of kvs k of None \<Rightarrow> JUndefined | Some v \<Rightarrow> v)"

text \<open>An assignment keeps the place of a property that exists and appends a new one.\<close>

fun obj_set :: "string \<Rightarrow> 'a \<Rightarrow> (string \<times> 'a) list \<Rightarrow> (string \<times> 'a) list" where
  "obj_set k v [] = [(k, v)]"
| "obj_set k v (p # ps) = (if fst p = k then (k, v) # ps else p # obj_set k v ps)"

definition object_prototype_names :: "string list" where
  "object_prototype_names =
     [''constructor'', ''hasOwnProperty'', ''isPrototypeOf'', ''propertyIsEnumerable'',
      ''toLocaleString'', ''toString'', ''valueOf'', ''__proto__'', ''__defineGetter__'',
      ''__defineSetter__'', ''__lookupGetter__'', ''__lookupSetter__'']"

text \<open>A key is an array index when it is the decimal rendering of a number.\<close>

definition index_of_key :: "string \<Rightarrow> nat option" where
  "index_of_key c =
     (if c \<noteq> [] \<and> list_all is_digit c \<and> (c = ''0'' \<or> hd c \<noteq> CHR ''0'')
      then Some (nat_of_digits c) else None)"

text \<open>
  \<open>c in a\<close> throws on a value that is not an object. On an object it also finds the
  properties of the prototype, which are outside the fragment.
\<close>

definition js_in :: "string \<Rightarrow> jsval \<Rightarrow> js_error + bool" where
  "js_in c a =
     (case a of
        JObj kvs \<Rightarrow>
          if obj_has c kvs then Inr True
          else if c \<in> set object_prototype_names then Inl Unmodelled
          else Inr False
      | JArr xs \<Rightarrow>
          (case index_of_key c of
             Some i \<Rightarrow> Inr (i < length xs)
           | None \<Rightarrow> if c = ''length'' then Inr True else Inl Unmodelled)
      | _ \<Rightarrow> Inl TypeError)"

definition js_get :: "string \<Rightarrow> jsval \<Rightarrow> jsval" where
  "js_get c a =
     (case a of
        JObj kvs \<Rightarrow> obj_get c kvs
      | JArr xs \<Rightarrow>
          (case index_of_key c of
             Some i \<Rightarrow> if i < length xs then xs ! i else JUndefined
           | None \<Rightarrow> if c = ''length'' then JNum (of_nat (length xs)) else JUndefined)
      | _ \<Rightarrow> JUndefined)"

text \<open>
  \<open>a[c] = v\<close> in strict mode (the module starts with \<open>'use strict'\<close>): a primitive
  value takes no property. An assignment into an array, which extends it or gives it a
  named property, is outside the fragment.
\<close>

definition js_assign :: "jsval \<Rightarrow> string \<Rightarrow> jsval \<Rightarrow> js_error + jsval" where
  "js_assign a c v =
     (case a of
        JObj kvs \<Rightarrow> if c = ''__proto__'' then Inl Unmodelled else Inr (JObj (obj_set c v kvs))
      | JArr xs \<Rightarrow> Inl Unmodelled
      | _ \<Rightarrow> Inl TypeError)"

text \<open>The own enumerable properties, as \<open>Object.assign({}, object)\<close> and the spread copy them.\<close>

definition own_props :: "jsval \<Rightarrow> (string \<times> jsval) list" where
  "own_props v =
     (case v of
        JObj kvs \<Rightarrow> kvs
      | JArr xs \<Rightarrow> zip (map digits_of [0..<length xs]) xs
      | JStr s \<Rightarrow> zip (map digits_of [0..<length s]) (map (\<lambda>c. JStr [c]) s)
      | _ \<Rightarrow> [])"

text \<open>\<open>key.split('.')\<close>\<close>

fun split_dot :: "string \<Rightarrow> string list" where
  "split_dot [] = [] # []"
| "split_dot (c # s) =
     (if c = CHR ''.'' then [] # split_dot s
      else (case split_dot s of [] \<Rightarrow> [c] # [] | x # xs \<Rightarrow> (c # x) # xs))"

text \<open>\<open>reduce\<close> with a step that may throw.\<close>

fun reduce :: "('a \<Rightarrow> 'b \<Rightarrow> js_error + 'a) \<Rightarrow> 'b list \<Rightarrow> 'a \<Rightarrow> js_error + 'a" where
  "reduce f [] a = Inr a"
| "reduce f (c # cs) a = (case f a c of Inl e \<Rightarrow> Inl e | Inr a' \<Rightarrow> reduce f cs a')"

definition isKeyExist_step :: "jsval \<Rightarrow> string \<Rightarrow> js_error + jsval" where
  "isKeyExist_step a c =
     (case js_in c a of
        Inl e \<Rightarrow> Inl e
      | Inr b \<Rightarrow> Inr (if b then (if truthy (js_get c a) then js_get c a else JNum 1)
                      else JBool False))"

definition isKeyExist :: "jsval \<Rightarrow> string \<Rightarrow> js_error + bool" where
  "isKeyExist object key =
     (case reduce isKeyExist_step (split_dot key) (JObj (own_props object)) of
        Inl e \<Rightarrow> Inl e
      | Inr a \<Rightarrow> Inr (a \<noteq> JBool False))"

text \<open>\<open>keys.every(...)\<close> stops at the first key that does not exist.\<close>

fun isKeysExist :: "jsval \<Rightarrow> string list \<Rightarrow> js_error + bool" where
  "isKeysExist object [] = Inr True"
| "isKeysExist object (key # keys) =
     (case isKeyExist object key of
        Inl e \<Rightarrow> Inl e
      | Inr b \<Rightarrow> if b then isKeysExist object keys else Inr False)"

definition getValueFromKey_step :: "jsval \<Rightarrow> jsval \<Rightarrow> string \<Rightarrow> js_error + jsval" where
  "getValueFromKey_step def a c =
     (case js_in c a of Inl e \<Rightarrow> Inl e | Inr b \<Rightarrow> Inr (if b then js_get c a else def))"

definition getValueFromKey :: "jsval \<Rightarrow> string \<Rightarrow> jsval \<Rightarrow> js_error + jsval" where
  "getValueFromKey object key def =
     reduce (getValueFromKey_step def) (split_dot key) (JObj (own_props object))"

text \<open>
  \<open>setValueFromKey\<close> walks the segments, creates the missing containers and assigns
  at the last segment. The source mutates the containers in place; here the updated
  container is returned.
\<close>

fun set_path :: "jsval \<Rightarrow> string list \<Rightarrow> jsval \<Rightarrow> js_error + jsval" where
  "set_path a [] v = Inr a"
| "set_path a [c] v = js_assign a c v"
| "set_path a (c # d # cs) v =
     (case js_in c a of
        Inl e \<Rightarrow> Inl e
      | Inr b \<Rightarrow>
          (case set_path (if b then js_get c a else JObj []) (d # cs) v of
             Inl e \<Rightarrow> Inl e
           | Inr child \<Rightarrow> js_assign a c child))"

definition setValueFromKey :: "jsval \<Rightarrow> string \<Rightarrow> jsval \<Rightarrow> js_error + jsval" where
  "setValueFromKey object key v = set_path object (split_dot key) v"

section \<open>The sanitizer\<close>

text \<open>
  \<open>flat(res, key, val, pre)\<close> of \<open>toFlatObject\<close>: \<open>typeof val === 'object'\<close> holds
  of objects, arrays and \<open>null\<close>, and \<open>Object.keys(null)\<close> throws.
\<close>

fun flat :: "(string \<times> jsval) list \<Rightarrow> string \<Rightarrow> jsval \<Rightarrow> string \<Rightarrow> js_error + (string \<times> jsval) list"
and flat_keys :: "(string \<times> jsval) list \<Rightarrow> (string \<times> jsval) list \<Rightarrow> string \<Rightarrow> js_error + (string \<times> jsval) list" where
  "flat res key val pre =
     (let prefix = join ''.'' (filter (\<lambda>v. v \<noteq> []) [pre, key])
      in case val of
           JObj kvs \<Rightarrow> flat_keys res kvs prefix
         | JNull \<Rightarrow> Inl TypeError
         | _ \<Rightarrow> if prefix = ''__proto__'' then Inl Unmodelled else Inr (obj_set prefix val res))"
| "flat_keys res [] prefix = Inr res"
| "flat_keys res (kv # kvs) prefix =
     (case flat res (fst kv) (snd kv) prefix of
        Inl e \<Rightarrow> Inl e
      | Inr res' \<Rightarrow> flat_keys res' kvs prefix)"

definition toFlatObject :: "jsval \<Rightarrow> js_error + (string \<times> jsval) list" where
  "toFlatObject object =
     (if object = JNull \<or> object = JUndefined then Inl TypeError
      else flat_keys [] (own_props object) [])"

record Sanitizer =
  rules :: "(string \<times> rule) list"
  errors :: "(string \<times> SanitizerError) list"

definition new_Sanitizer :: "(string \<times> rule) list \<Rightarrow> Sanitizer" where
  "new_Sanitizer rs = \<lparr> rules = rs, errors = [] \<rparr>"

text \<open>The callback \<open>error => this.errors[specKey] = error\<close>, once for each call of the rule.\<close>

definition record_calls ::
  "string \<Rightarrow> call list \<Rightarrow> (string \<times> SanitizerError) list \<Rightarrow> (string \<times> SanitizerError) list" where
  "record_calls specKey calls errs = foldl (\<lambda>es c. obj_set specKey (fst c) es) errs calls"

text \<open>The body of the loop over the keys of \<open>flatSpec\<close>, on the errors and the output so far.\<close>

definition spec_step ::
  "(string \<times> rule) list \<Rightarrow> jsval \<Rightarrow> jsval \<Rightarrow> (string \<times> jsval) list \<Rightarrow>
   (string \<times> SanitizerError) list \<times> jsval \<Rightarrow> string \<Rightarrow>
   js_error + ((string \<times> SanitizerError) list \<times> jsval)" where
  "spec_step rs spec payload flatPayload st specKey =
     (case isKeyExist payload specKey of
        Inl e \<Rightarrow> Inl e
      | Inr exists \<Rightarrow>
          if exists then
            (case getValueFromKey spec specKey JNull of
               Inl e \<Rightarrow> Inl e
             | Inr ruleName \<Rightarrow>
                 (case to_string ruleName of
                    None \<Rightarrow> Inl Unmodelled
                  | Some name \<Rightarrow>
                      (case map_of rs name of
                         Some sanitizer \<Rightarrow>
                           (case sanitize sanitizer (obj_get specKey flatPayload) of
                              Inl e \<Rightarrow> Inl e
                            | Inr (calls, v) \<Rightarrow>
                                (case setValueFromKey (snd st) specKey v of
                                   Inl e \<Rightarrow> Inl e
                                 | Inr out \<Rightarrow> Inr (record_calls specKey calls (fst st), out)))
                       | None \<Rightarrow>
                           if name \<in> set object_prototype_names then Inl Unmodelled
                           else Inr (obj_set specKey InvalidSpecRule (fst st), snd st))))
          else Inr (obj_set specKey KeyDoesNotExist (fst st), snd st))"

text \<open>The loop over \<open>payloadKeys\<close> that records the extra fields.\<close>

definition extra_fields ::
  "string list \<Rightarrow> string list \<Rightarrow> (string \<times> SanitizerError) list \<Rightarrow> (string \<times> SanitizerError) list" where
  "extra_fields specKeys payloadKeys errs =
     foldl (\<lambda>es payloadKey. if payloadKey \<notin> set specKeys then obj_set payloadKey ExtraField es else es)
       errs payloadKeys"

text \<open>
  \<open>sanitizeBySpec\<close> returns the sanitized payload; the errors are a field of the
  instance, which the call updates and never empties.
\<close>

definition sanitizeBySpec :: "Sanitizer \<Rightarrow> jsval \<Rightarrow> jsval \<Rightarrow> js_error + (Sanitizer \<times> jsval)" where
  "sanitizeBySpec this spec payload =
     (case toFlatObject spec of
        Inl e \<Rightarrow> Inl e
      | Inr flatSpec \<Rightarrow>
          (case toFlatObject payload of
             Inl e \<Rightarrow> Inl e
           | Inr flatPayload \<Rightarrow>
               (let specKeys = map fst flatSpec;
                    payloadKeys = map fst flatPayload;
                    errs = (if length specKeys \<noteq> length payloadKeys
                            then extra_fields specKeys payloadKeys (errors this)
                            else errors this)
                in case reduce (spec_step (rules this) spec payload flatPayload) specKeys (errs, JObj []) of
                     Inl e \<Rightarrow> Inl e
                   | Inr (errs', sanitizedPayload) \<Rightarrow>
                       Inr (this \<lparr> errors := errs' \<rparr>, sanitizedPayload))))"

definition StandardSanitizer :: Sanitizer where
  "StandardSanitizer = new_Sanitizer
     [(''int'', IntegerRule), (''float'', FloatRule), (''phone'', PhoneRule), (''string'', StringRule),
      (''int[]'', TypedArrayRule IntegerRule), (''float[]'', TypedArrayRule FloatRule),
      (''phone[]'', TypedArrayRule PhoneRule), (''string[]'', TypedArrayRule StringRule)]"

section \<open>Notions used in the statements\<close>

text \<open>
  An element is signalled when the inner rule called its error callback on it;
  \<open>returned\<close> is the value the inner rule gave for it.
\<close>

definition signalled :: "(jsval \<Rightarrow> outcome) \<Rightarrow> jsval \<Rightarrow> bool" where
  "signalled inner x = (case inner x of Inl e \<Rightarrow> False | Inr (calls, v) \<Rightarrow> calls \<noteq> [])"

definition returned :: "(jsval \<Rightarrow> outcome) \<Rightarrow> jsval \<Rightarrow> jsval" where
  "returned inner x = (case inner x of Inl e \<Rightarrow> JUndefined | Inr (calls, v) \<Rightarrow> v)"

text \<open>
  A path is present in a value when each segment in turn names a property of the
  container reached so far, by the \<open>in\<close> operator.
\<close>

fun path_present :: "string list \<Rightarrow> jsval \<Rightarrow> bool" where
  "path_present [] a = True"
| "path_present (c # cs) a = (js_in c a = Inr True \<and> path_present cs (js_get c a))"

text \<open>
  For a pattern without \<open>+\<close>, bounds on the number of digits in what it matches.
\<close>

fun no_many :: "rexp \<Rightarrow> bool" where
  "no_many Eps = True"
| "no_many (Cls cs) = True"
| "no_many (Many cs) = False"
| "no_many (Seq a b) = (no_many a \<and> no_many b)"
| "no_many (Alt a b) = (no_many a \<and> no_many b)"
| "no_many (Opt a) = no_many a"

fun dig_lo :: "rexp \<Rightarrow> nat" where
  "dig_lo Eps = 0"
| "dig_lo (Cls cs) = (if list_all is_digit cs then 1 else 0)"
| "dig_lo (Many cs) = 0"
| "dig_lo (Seq a b) = dig_lo a + dig_lo b"
| "dig_lo (Alt a b) = min (dig_lo a) (dig_lo b)"
| "dig_lo (Opt a) = 0"

fun dig_hi :: "rexp \<Rightarrow> nat" where
  "dig_hi Eps = 0"
| "dig_hi (Cls cs) = (if list_ex is_digit cs then 1 else 0)"
| "dig_hi (Many cs) = 0"
| "dig_hi (Seq a b) = dig_hi a + dig_hi b"
| "dig_hi (Alt a b) = max (dig_hi a) (dig_hi b)"
| "dig_hi (Opt a) = dig_hi a"

definition digits_in :: "string \<Rightarrow> nat" where
  "digits_in p = length (filter is_digit p)"

text \<open>
  The value that nested objects hold at a path of segments, when every segment is
  present; the prefix order on paths; the values that are not objects.
\<close>

fun value_at :: "string list \<Rightarrow> jsval \<Rightarrow> jsval option" where
  "value_at [] a = Some a"
| "value_at (c # cs) a =
     (case a of
        JObj kvs \<Rightarrow> if obj_has c kvs then value_at cs (obj_get c kvs) else None
      | _ \<Rightarrow> None)"

fun is_prefix :: "string list \<Rightarrow> string list \<Rightarrow> bool" where
  "is_prefix [] ys = True"
| "is_prefix (x # xs) [] = False"
| "is_prefix (x # xs) (y # ys) = (x = y \<and> is_prefix xs ys)"

fun is_leaf :: "jsval \<Rightarrow> bool" where
  "is_leaf (JObj kvs) = False"
| "is_leaf v = True"

text \<open>The scalar rules and the default each substitutes for an invalid value.\<close>

fun scalar :: "rule \<Rightarrow> bool" where
  "scalar (TypedArrayRule r) = False"
| "scalar r = True"

fun default_of :: "rule \<Rightarrow> jsval" where
  "default_of IntegerRule = JNum 0"
| "default_of FloatRule = JNum 0"
| "default_of StringRule = JStr []"
| "default_of PhoneRule = JStr []"
| "default_of (TypedArrayRule r) = JArr []"

text \<open>
  The leaves of nested objects, each with its path; the key that \<open>flat\<close> gives to a
  path; the flattened object as the leaves written in order; and what it means that a
  key of the spec resolves to a rule that accepts the payload's value and returns
  \<open>v\<close> for it without an error.
\<close>

definition dot_join :: "string \<Rightarrow> string \<Rightarrow> string" where
  "dot_join pre key = join ''.'' (filter (\<lambda>v. v \<noteq> []) [pre, key])"

fun pathkey :: "string \<Rightarrow> string list \<Rightarrow> string" where
  "pathkey pre [] = pre"
| "pathkey pre (c # cs) = pathkey (dot_join pre c) cs"

fun leaves_val :: "jsval \<Rightarrow> (string list \<times> jsval) list"
and leaves_kvs :: "(string \<times> jsval) list \<Rightarrow> (string list \<times> jsval) list" where
  "leaves_val val = (case val of JObj kvs \<Rightarrow> leaves_kvs kvs | _ \<Rightarrow> [([], val)])"
| "leaves_kvs [] = []"
| "leaves_kvs (kv # kvs) =
     map (\<lambda>qx. (fst kv # fst qx, snd qx)) (leaves_val (snd kv)) @ leaves_kvs kvs"

definition resolved ::
  "(string \<times> rule) list \<Rightarrow> jsval \<Rightarrow> jsval \<Rightarrow> (string \<times> jsval) list \<Rightarrow> string \<Rightarrow> jsval \<Rightarrow> bool" where
  "resolved rs spec payload flatPayload k v =
     (isKeyExist payload k = Inr True
      \<and> (\<exists>ruleName name r.
            getValueFromKey spec k JNull = Inr ruleName \<and> to_string ruleName = Some name
            \<and> map_of rs name = Some r \<and> sanitize r (obj_get k flatPayload) = Inr ([], v)))"

definition put_leaves ::
  "string \<Rightarrow> (string \<times> jsval) list \<Rightarrow> (string list \<times> jsval) list \<Rightarrow> (string \<times> jsval) list" where
  "put_leaves prefix res ls = foldl (\<lambda>r qx. obj_set (pathkey prefix (fst qx)) (snd qx) r) res ls"


text \<open>
  The values that a rule returns unchanged and without an error: an integral number of
  magnitude below \<open>10^21\<close> for \<open>IntegerRule\<close>, a non-integral number for
  \<open>FloatRule\<close>, any string for \<open>StringRule\<close>, a string of 11 to 14 digits that
  begins with \<open>7\<close> for \<open>PhoneRule\<close>, and an array of such values for
  \<open>TypedArrayRule\<close>.
\<close>

primrec stable :: "rule \<Rightarrow> jsval \<Rightarrow> bool" where
  "stable IntegerRule v = (case v of JNum r \<Rightarrow> is_integral r \<and> \<bar>r\<bar> < 10 ^ 21 | _ \<Rightarrow> False)"
| "stable FloatRule v = (case v of JNum r \<Rightarrow> \<not> is_integral r | _ \<Rightarrow> False)"
| "stable StringRule v = isString v"
| "stable PhoneRule v =
     (case v of
        JStr s \<Rightarrow> list_all is_digit s \<and> 11 \<le> length s \<and> length s \<le> 14 \<and> hd s = CHR ''7''
      | _ \<Rightarrow> False)"
| "stable (TypedArrayRule r) v = (case v of JArr xs \<Rightarrow> list_all (stable r) xs | _ \<Rightarrow> False)"

section \<open>Typed arrays\<close>

lemma truthy_error_True [simp]: "truthy_error e"
  by (cases e) (simp_all add: truthy_error_def)

lemma map_items_total:
  "\<forall>x\<in>set xs. \<exists>calls v. inner x = Inr (calls, v) \<Longrightarrow> \<exists>idxs ys. map_items inner i xs acc = Inr (idxs, ys)"
proof (induction xs arbitrary: i acc)
  case Nil
  show ?case by simp
next
  case (Cons x xs)
  from Cons.prems obtain calls v where x: "inner x = Inr (calls, v)" by auto
  from Cons.prems have "\<forall>y\<in>set xs. \<exists>calls v. inner y = Inr (calls, v)" by simp
  from Cons.IH [OF this] obtain idxs ys
    where "map_items inner (Suc i) xs (acc @ map (\<lambda>c. i) calls) = Inr (idxs, ys)" by blast
  with x show ?case by simp
qed

lemma map_items_values:
  "map_items inner i xs acc = Inr (idxs, ys) \<Longrightarrow> ys = map (returned inner) xs"
proof (induction xs arbitrary: i acc idxs ys)
  case Nil
  then show ?case by simp
next
  case (Cons x xs)
  then show ?case
    by (auto simp: returned_def split: sum.splits prod.splits)
qed

lemma map_items_index_set:
  "map_items inner i xs acc = Inr (idxs, ys) \<Longrightarrow>
   set idxs = set acc \<union> {i + k | k. k < length xs \<and> signalled inner (xs ! k)}"
proof (induction xs arbitrary: i acc idxs ys)
  case Nil
  then show ?case by simp
next
  case (Cons x xs)
  from Cons.prems obtain calls v idxs' ys' where
    x: "inner x = Inr (calls, v)" and
    r: "map_items inner (Suc i) xs (acc @ map (\<lambda>c. i) calls) = Inr (idxs', ys')" and
    e: "idxs = idxs'"
    by (auto split: sum.splits prod.splits)
  have "set idxs' = set (acc @ map (\<lambda>c. i) calls) \<union> {Suc i + k | k. k < length xs \<and> signalled inner (xs ! k)}"
    by (rule Cons.IH [OF r])
  moreover have "set (map (\<lambda>c. i) calls) = (if signalled inner x then {i} else {})"
    using x by (cases calls) (auto simp: signalled_def)
  moreover have "{i + k | k. k < length (x # xs) \<and> signalled inner ((x # xs) ! k)}
      = (if signalled inner x then {i} else {}) \<union> {Suc i + k | k. k < length xs \<and> signalled inner (xs ! k)}"
  proof -
    have "\<And>j. (\<exists>k. j = i + k \<and> k < Suc (length xs) \<and> signalled inner ((x # xs) ! k))
        = ((j = i \<and> signalled inner x) \<or> (\<exists>k. j = Suc i + k \<and> k < length xs \<and> signalled inner (xs ! k)))"
    proof -
      fix j
      show "(\<exists>k. j = i + k \<and> k < Suc (length xs) \<and> signalled inner ((x # xs) ! k))
        = ((j = i \<and> signalled inner x) \<or> (\<exists>k. j = Suc i + k \<and> k < length xs \<and> signalled inner (xs ! k)))"
        (is "?L = ?R")
      proof
        assume ?L
        then obtain k where k: "j = i + k" "k < Suc (length xs)" "signalled inner ((x # xs) ! k)" by blast
        show ?R
        proof (cases k)
          case 0
          with k show ?thesis by simp
        next
          case (Suc m)
          with k show ?thesis by auto
        qed
      next
        assume ?R
        then show ?L
        proof
          assume "j = i \<and> signalled inner x"
          then have "j = i + 0 \<and> 0 < Suc (length xs) \<and> signalled inner ((x # xs) ! 0)" by simp
          then show ?L by blast
        next
          assume "\<exists>k. j = Suc i + k \<and> k < length xs \<and> signalled inner (xs ! k)"
          then obtain k where "j = Suc i + k" "k < length xs" "signalled inner (xs ! k)" by blast
          then have "j = i + Suc k \<and> Suc k < Suc (length xs) \<and> signalled inner ((x # xs) ! Suc k)" by simp
          then show ?L by blast
        qed
      qed
    qed
    then show ?thesis by (auto split: if_splits)
  qed
  ultimately show ?case using e by auto
qed

lemma map_items_sorted:
  assumes "\<forall>x\<in>set xs. \<forall>calls v. inner x = Inr (calls, v) \<longrightarrow> length calls \<le> 1"
      and "map_items inner i xs acc = Inr (idxs, ys)"
  shows "idxs = acc @ filter (\<lambda>k. signalled inner (xs ! (k - i))) [i..<i + length xs]"
  using assms
proof (induction xs arbitrary: i acc idxs ys)
  case Nil
  then show ?case by simp
next
  case (Cons x xs)
  from Cons.prems(2) obtain calls v where
    x: "inner x = Inr (calls, v)" and
    r: "map_items inner (Suc i) xs (acc @ map (\<lambda>c. i) calls) = Inr (idxs, tl ys)"
    by (auto split: sum.splits prod.splits)
  from Cons.prems(1) x have le: "length calls \<le> 1" by simp
  from Cons.prems(1) have rest: "\<forall>y\<in>set xs. \<forall>calls v. inner y = Inr (calls, v) \<longrightarrow> length calls \<le> 1"
    by simp
  have ih: "idxs = (acc @ map (\<lambda>c. i) calls) @ filter (\<lambda>k. signalled inner (xs ! (k - Suc i))) [Suc i..<Suc i + length xs]"
    by (rule Cons.IH [OF rest r])
  have hd: "map (\<lambda>c. i) calls = (if signalled inner x then [i] else [])"
    using x le by (cases calls) (auto simp: signalled_def)
  have tl: "filter (\<lambda>k. signalled inner ((x # xs) ! (k - i))) [Suc i..<Suc i + length xs]
      = filter (\<lambda>k. signalled inner (xs ! (k - Suc i))) [Suc i..<Suc i + length xs]"
  proof (rule filter_cong)
    fix k
    assume "k \<in> set [Suc i..<Suc i + length xs]"
    then have "k - i = Suc (k - Suc i)" by auto
    then show "signalled inner ((x # xs) ! (k - i)) = signalled inner (xs ! (k - Suc i))" by simp
  qed simp
  have up: "[i..<i + length (x # xs)] = i # [Suc i..<Suc i + length xs]"
  proof -
    have "[i..<Suc (i + length xs)] = i # [Suc i..<Suc (i + length xs)]"
      by (rule upt_conv_Cons) simp
    then show ?thesis by (simp del: upt_Suc)
  qed
  show ?case
    unfolding up by (simp only: filter.simps nth_Cons_0 diff_self_eq_0 tl ih hd append_assoc split: if_splits) simp
qed

lemmas regex_defs = re_test_def re_test_val_def phone_re_def int_re_def float_re_def plus_digits_def
  Chr_def digit_def numeral_3_eq_3 eval_nat_numeral

lemmas rule_defs = IntegerRule_sanitize_def FloatRule_sanitize_def StringRule_sanitize_def
  PhoneRule_sanitize_def TypedArrayRule_sanitize_def isPhone_def parseInt_def parseInt_str_def
  parseFloat_def parseFloat_str_def num_to_string_def is_integral_def int_to_string_def
  digits_of.simps digit_char_def is_space_def is_digit_def nat_of_digits_def digit_val_def
  strip_non_digits_def

lemma sanitize_calls_once:
  assumes that: "sanitize r x = Inr (calls, v)"
  shows "length calls \<le> 1"
proof (cases r)
  case IntegerRule
  then show ?thesis using that
    by (auto simp: IntegerRule_sanitize_def Let_def split: sum.splits if_splits)
next
  case FloatRule
  then show ?thesis using that
    by (auto simp: FloatRule_sanitize_def Let_def split: sum.splits if_splits)
next
  case StringRule
  then show ?thesis using that
    by (auto simp: StringRule_sanitize_def split: if_splits)
next
  case PhoneRule
  then show ?thesis using that
    by (cases "isPhone x"; cases x) (auto simp: PhoneRule_sanitize_def)
next
  case (TypedArrayRule r')
  then show ?thesis using that
    by (cases x) (auto simp: TypedArrayRule_sanitize_def split: sum.splits if_splits prod.splits)
qed

lemma ex_set_conv_nth:
  "(\<exists>x\<in>set xs. P x) = (\<exists>k<length xs. P (xs ! k))"
proof
  assume "\<exists>x\<in>set xs. P x"
  then obtain x where "x \<in> set xs" "P x" by blast
  then obtain k where "k < length xs" "xs ! k = x" by (auto simp: in_set_conv_nth)
  with \<open>P x\<close> show "\<exists>k<length xs. P (xs ! k)" by blast
next
  assume "\<exists>k<length xs. P (xs ! k)"
  then obtain k where "k < length xs" "P (xs ! k)" by blast
  then have "xs ! k \<in> set xs" by simp
  with \<open>P (xs ! k)\<close> show "\<exists>x\<in>set xs. P x" by blast
qed

lemma TypedArrayRule_returns:
  assumes "\<forall>x\<in>set xs. \<exists>calls v. inner x = Inr (calls, v)"
  shows "\<exists>idxs. map_items inner 0 xs [] = Inr (idxs, map (returned inner) xs)
           \<and> set idxs = {k. k < length xs \<and> signalled inner (xs ! k)}"
proof -
  from map_items_total [OF assms] obtain idxs ys where
    m: "map_items inner 0 xs [] = Inr (idxs, ys)" by blast
  have "ys = map (returned inner) xs" by (rule map_items_values [OF m])
  moreover have "set idxs = {k. k < length xs \<and> signalled inner (xs ! k)}"
    using map_items_index_set [OF m] by simp
  ultimately show ?thesis using m by blast
qed

text \<open>
  The all-or-nothing behaviour. When the inner rule returns on every element of the array,
  \<open>TypedArrayRule.sanitize\<close> returns the fully mapped array without a report if no
  element was signalled, and otherwise reports \<open>InvalidStructureValue\<close> with the
  indexes of the signalled elements and returns the empty array: never a part of the
  mapped array. Under \<open>StringRule\<close>, \<open>["foo", "bar"]\<close> is returned unchanged and
  \<open>["foo", "bar", null]\<close> gives the empty array with the index list \<open>[2]\<close>.
\<close>

theorem TypedArrayRule_all_or_nothing:
  assumes "\<forall>x\<in>set xs. \<exists>calls v. inner x = Inr (calls, v)"
  shows "((\<forall>x\<in>set xs. \<not> signalled inner x) \<longrightarrow>
            TypedArrayRule_sanitize inner (JArr xs) = Inr ([], JArr (map (returned inner) xs)))
       \<and> ((\<exists>x\<in>set xs. signalled inner x) \<longrightarrow>
            (\<exists>idxs. TypedArrayRule_sanitize inner (JArr xs)
                       = Inr ([(InvalidStructureValue, Some idxs)], JArr [])
                  \<and> set idxs = {k. k < length xs \<and> signalled inner (xs ! k)}))
       \<and> sanitize (TypedArrayRule StringRule) (JArr [JStr ''foo'', JStr ''bar''])
           = Inr ([], JArr [JStr ''foo'', JStr ''bar''])
       \<and> sanitize (TypedArrayRule StringRule) (JArr [JStr ''foo'', JStr ''bar'', JNull])
           = Inr ([(InvalidStructureValue, Some [2])], JArr [])"
proof -
  from TypedArrayRule_returns [OF assms] obtain idxs where
    m: "map_items inner 0 xs [] = Inr (idxs, map (returned inner) xs)" and
    s: "set idxs = {k. k < length xs \<and> signalled inner (xs ! k)}" by blast
  have iff: "(idxs \<noteq> []) = (\<exists>x\<in>set xs. signalled inner x)"
  proof -
    have "(idxs \<noteq> []) = (set idxs \<noteq> {})" by simp
    also have "\<dots> = (\<exists>k<length xs. signalled inner (xs ! k))" unfolding s by blast
    also have "\<dots> = (\<exists>x\<in>set xs. signalled inner x)" by (rule ex_set_conv_nth [symmetric])
    finally show ?thesis .
  qed
  have main: "((\<forall>x\<in>set xs. \<not> signalled inner x) \<longrightarrow>
            TypedArrayRule_sanitize inner (JArr xs) = Inr ([], JArr (map (returned inner) xs)))
       \<and> ((\<exists>x\<in>set xs. signalled inner x) \<longrightarrow>
            (\<exists>idxs. TypedArrayRule_sanitize inner (JArr xs)
                       = Inr ([(InvalidStructureValue, Some idxs)], JArr [])
                  \<and> set idxs = {k. k < length xs \<and> signalled inner (xs ! k)}))"
  proof (cases "idxs = []")
    case True
    with iff have "\<forall>x\<in>set xs. \<not> signalled inner x" by blast
    with True m show ?thesis by (simp add: TypedArrayRule_sanitize_def)
  next
    case False
    with iff have "\<exists>x\<in>set xs. signalled inner x" by blast
    with False m s show ?thesis by (auto simp: TypedArrayRule_sanitize_def)
  qed
  have ex1: "sanitize (TypedArrayRule StringRule) (JArr [JStr ''foo'', JStr ''bar''])
           = Inr ([], JArr [JStr ''foo'', JStr ''bar''])"
    by (simp add: TypedArrayRule_sanitize_def StringRule_sanitize_def)
  have ex2: "sanitize (TypedArrayRule StringRule) (JArr [JStr ''foo'', JStr ''bar'', JNull])
           = Inr ([(InvalidStructureValue, Some [2])], JArr [])"
    by (simp add: TypedArrayRule_sanitize_def StringRule_sanitize_def)
  from main ex1 ex2 show ?thesis by simp
qed

text \<open>The array \<open>["foo", "bar", null]\<close> under \<open>StringRule\<close>.\<close>

theorem TypedArrayRule_all_or_nothing_witness:
  "(\<exists>x\<in>set [JStr ''foo'', JStr ''bar'', JNull]. signalled StringRule_sanitize x)
   \<and> (\<exists>idxs. TypedArrayRule_sanitize StringRule_sanitize (JArr [JStr ''foo'', JStr ''bar'', JNull])
                = Inr ([(InvalidStructureValue, Some idxs)], JArr [])
           \<and> set idxs = {k. k < length [JStr ''foo'', JStr ''bar'', JNull]
                            \<and> signalled StringRule_sanitize ([JStr ''foo'', JStr ''bar'', JNull] ! k)})"
proof -
  have h: "\<forall>x\<in>set [JStr ''foo'', JStr ''bar'', JNull]. \<exists>calls v. StringRule_sanitize x = Inr (calls, v)"
    by (simp add: StringRule_sanitize_def)
  have s: "\<exists>x\<in>set [JStr ''foo'', JStr ''bar'', JNull]. signalled StringRule_sanitize x"
    by (simp add: StringRule_sanitize_def signalled_def)
  from TypedArrayRule_all_or_nothing [OF h] s show ?thesis by blast
qed

lemma int_to_string_phone: "int_to_string 78005553535 = ''78005553535''"
  by (simp add: int_to_string_def digits_of.simps digit_char_def)

lemma isPhone_number: "isPhone (JNum 78005553535)"
  by (simp add: isPhone_def re_test_val_def num_to_string_def is_integral_def int_to_string_phone
        re_test_def phone_re_def Chr_def digit_def numeral_3_eq_3 eval_nat_numeral)

lemma isPhone_null: "\<not> isPhone JNull"
  by (simp add: isPhone_def regex_defs)

text \<open>
  Claim C6 fails through \<open>PhoneRule\<close>: on \<open>[null, 78005553535]\<close> the first element
  is signalled, the second makes \<open>PhoneRule\<close> throw (it keeps the number and calls
  \<open>replace\<close> on it), and the call ends with the exception instead of a report and an
  empty array.
\<close>

theorem TypedArrayRule_throws_with_PhoneRule:
  "sanitize (TypedArrayRule PhoneRule) (JArr [JNull, JNum 78005553535]) = Inl TypeError"
  by (simp add: TypedArrayRule_sanitize_def PhoneRule_sanitize_def isPhone_number isPhone_null)

text \<open>
  Claim C10. When \<open>TypedArrayRule.sanitize\<close> returns on an array with a signalled
  element, it has called the error callback once, with \<open>InvalidStructureValue\<close> and
  an index list that is strictly increasing, free of duplicates, and holds exactly the
  indexes at which the inner rule called its callback.
\<close>

theorem invalid_indexes_strictly_increasing:
  assumes "sanitize (TypedArrayRule r) (JArr xs) = Inr (calls, out)"
      and "\<exists>x\<in>set xs. signalled (sanitize r) x"
  shows "\<exists>idxs. calls = [(InvalidStructureValue, Some idxs)] \<and> out = JArr []
           \<and> sorted_wrt (<) idxs \<and> distinct idxs
           \<and> set idxs = {k. k < length xs \<and> signalled (sanitize r) (xs ! k)}"
proof -
  from assms(1) have t: "TypedArrayRule_sanitize (sanitize r) (JArr xs) = Inr (calls, out)"
    by simp
  obtain idxs ys where m: "map_items (sanitize r) 0 xs [] = Inr (idxs, ys)"
  proof (cases "map_items (sanitize r) 0 xs []")
    case (Inl e)
    with t show ?thesis by (simp add: TypedArrayRule_sanitize_def)
  next
    case (Inr p)
    with that show ?thesis by (cases p) simp
  qed
  have once: "\<forall>x\<in>set xs. \<forall>calls v. sanitize r x = Inr (calls, v) \<longrightarrow> length calls \<le> 1"
  proof (intro ballI allI impI)
    fix x cs v
    assume "sanitize r x = Inr (cs, v)"
    then show "length cs \<le> 1" by (rule sanitize_calls_once)
  qed
  have eq: "idxs = filter (\<lambda>k. signalled (sanitize r) (xs ! k)) [0..<length xs]"
    using map_items_sorted [OF once m] by simp
  have st: "set idxs = {k. k < length xs \<and> signalled (sanitize r) (xs ! k)}"
    unfolding eq by auto
  from assms(2) obtain k where k: "k < length xs" "signalled (sanitize r) (xs ! k)"
    unfolding ex_set_conv_nth by blast
  then have "k \<in> set idxs" unfolding st by simp
  then have ne: "idxs \<noteq> []" by (cases idxs) simp_all
  have so: "sorted_wrt (<) idxs" unfolding eq by (rule sorted_wrt_filter) simp
  have di: "distinct idxs" unfolding eq by simp
  from t m ne have c: "calls = [(InvalidStructureValue, Some idxs)]" and o: "out = JArr []"
    by (simp_all add: TypedArrayRule_sanitize_def)
  from c o so di st show ?thesis by blast
qed

text \<open>The array \<open>[null, "foo", null]\<close> under \<open>StringRule\<close>: the indexes are 0 and 2.\<close>

theorem invalid_indexes_strictly_increasing_witness:
  "sanitize (TypedArrayRule StringRule) (JArr [JNull, JStr ''foo'', JNull])
     = Inr ([(InvalidStructureValue, Some [0, 2])], JArr [])
   \<and> (\<exists>x\<in>set [JNull, JStr ''foo'', JNull]. signalled (sanitize StringRule) x)
   \<and> (\<exists>idxs. [(InvalidStructureValue, Some [0, 2])] = [(InvalidStructureValue, Some idxs)]
           \<and> sorted_wrt (<) idxs \<and> distinct idxs
           \<and> set idxs = {k. k < length [JNull, JStr ''foo'', JNull]
                            \<and> signalled (sanitize StringRule) ([JNull, JStr ''foo'', JNull] ! k)})"
proof -
  have a: "sanitize (TypedArrayRule StringRule) (JArr [JNull, JStr ''foo'', JNull])
     = Inr ([(InvalidStructureValue, Some [0, 2])], JArr [])"
    by (simp add: rule_defs)
  have b: "\<exists>x\<in>set [JNull, JStr ''foo'', JNull]. signalled (sanitize StringRule) x"
    by (simp add: StringRule_sanitize_def signalled_def)
  from invalid_indexes_strictly_increasing [OF a b] a b show ?thesis by blast
qed

section \<open>Evaluation\<close>

lemmas path_defs = obj_has_def obj_get_def js_in_def js_get_def js_assign_def own_props_def
  isKeyExist_def isKeyExist_step_def getValueFromKey_def getValueFromKey_step_def
  setValueFromKey_def object_prototype_names_def index_of_key_def

lemmas sanitizer_defs = sanitizeBySpec_def toFlatObject_def spec_step_def extra_fields_def
  record_calls_def StandardSanitizer_def new_Sanitizer_def

section \<open>Scalar rules\<close>

text \<open>
  Claim C8 fails on \<open>PhoneRule\<close>: the number 78005553535 renders to a string the
  phone pattern accepts, so the value is kept, and a number has no \<open>replace\<close>
  method: the call throws instead of returning.
\<close>

theorem PhoneRule_throws_on_number:
  "isPhone (JNum 78005553535) \<and> PhoneRule_sanitize (JNum 78005553535) = Inl TypeError"
  by (simp add: PhoneRule_sanitize_def isPhone_number)

text \<open>
  Claim C7 as stated fails: a valid phone value need not give eleven digits.
\<close>

theorem phone_not_eleven_digits_counterexample:
  "isPhone (JStr ''7800-------'') \<and> PhoneRule_sanitize (JStr ''7800-------'') = Inr ([], JStr ''7800'')"
  by (simp add: rule_defs regex_defs)

section \<open>The sanitizer on concrete inputs\<close>

text \<open>
  Claim C4 fails: when a spec path \<open>a.b\<close> has no first segment in the payload,
  \<open>isKeyExist\<close> goes on from \<open>false\<close> to the next segment and the \<open>in\<close>
  operator throws; and a \<open>null\<close> leaf of the payload makes \<open>toFlatObject\<close> throw.
\<close>

theorem sanitizeBySpec_throws:
  "sanitizeBySpec StandardSanitizer (JObj [(''a'', JObj [(''b'', JStr ''int'')])]) (JObj []) = Inl TypeError
   \<and> sanitizeBySpec StandardSanitizer (JObj [(''a'', JStr ''int'')]) (JObj [(''a'', JNull)]) = Inl TypeError"
  by (simp add: sanitizer_defs path_defs)

text \<open>
  Claim C3 fails: the errors are a field that only the constructor empties. After the
  two calls of the test suite on one instance, the report still holds the error of
  the first call beside that of the second.
\<close>

theorem errors_accumulate:
  "sanitizeBySpec StandardSanitizer
      (JObj [(''foo'', JObj [(''bar'', JObj [(''baz'', JStr ''int'')])])])
      (JObj [(''foo'', JObj [(''bar'', JObj [(''baz'', JStr ''123qux'')])])])
    = Inr (StandardSanitizer \<lparr> errors := [(''foo.bar.baz'', InvalidValue)] \<rparr>,
           JObj [(''foo'', JObj [(''bar'', JObj [(''baz'', JNum 0)])])])
   \<and> sanitizeBySpec (StandardSanitizer \<lparr> errors := [(''foo.bar.baz'', InvalidValue)] \<rparr>)
      (JObj [(''foo'', JObj [(''bar'', JObj [(''baz'', JStr ''int'')])])])
      (JObj [(''foo'', JObj [(''bar'', JObj [(''baz'', JStr ''123''), (''qux'', JNum 123)])])])
    = Inr (StandardSanitizer \<lparr> errors := [(''foo.bar.baz'', InvalidValue), (''foo.bar.qux'', ExtraField)] \<rparr>,
           JObj [(''foo'', JObj [(''bar'', JObj [(''baz'', JNum 123)])])])"
  by (simp add: sanitizer_defs path_defs rule_defs regex_defs)

text \<open>
  Claim C1 as stated fails when the key counts are equal: the payload path \<open>b\<close> is
  not in the spec, and no \<open>ExtraField\<close> is recorded for it.
\<close>

theorem extra_field_missed_counterexample:
  "toFlatObject (JObj [(''a'', JStr ''int'')]) = Inr [(''a'', JStr ''int'')]
   \<and> toFlatObject (JObj [(''b'', JStr ''1'')]) = Inr [(''b'', JStr ''1'')]
   \<and> sanitizeBySpec StandardSanitizer (JObj [(''a'', JStr ''int'')]) (JObj [(''b'', JStr ''1'')])
        = Inr (StandardSanitizer \<lparr> errors := [(''a'', KeyDoesNotExist)] \<rparr>, JObj [])"
  by (simp add: sanitizer_defs path_defs)

text \<open>
  Claim C2 as stated fails on its own example: the output holds the default \<open>0\<close> at
  \<open>foo.bar.baz\<close> instead of omitting the path.
\<close>

theorem invalid_leaf_not_omitted_counterexample:
  "sanitizeBySpec StandardSanitizer
      (JObj [(''foo'', JObj [(''bar'', JObj [(''baz'', JStr ''int'')])])])
      (JObj [(''foo'', JObj [(''bar'', JObj [(''baz'', JStr ''123qux'')])])])
    = Inr (StandardSanitizer \<lparr> errors := [(''foo.bar.baz'', InvalidValue)] \<rparr>,
           JObj [(''foo'', JObj [(''bar'', JObj [(''baz'', JNum 0)])])])"
  by (simp add: sanitizer_defs path_defs rule_defs regex_defs)

text \<open>
  Claim C5 as stated fails: \<open>"7800-------"\<close> is accepted by the phone pattern and
  sanitized to \<open>"7800"\<close> with an empty report, and \<open>"7800"\<close> is then rejected.
\<close>

theorem not_idempotent_counterexample:
  "sanitizeBySpec StandardSanitizer (JObj [(''p'', JStr ''phone'')]) (JObj [(''p'', JStr ''7800-------'')])
     = Inr (StandardSanitizer, JObj [(''p'', JStr ''7800'')])
   \<and> errors StandardSanitizer = []
   \<and> sanitizeBySpec StandardSanitizer (JObj [(''p'', JStr ''phone'')]) (JObj [(''p'', JStr ''7800'')])
     = Inr (StandardSanitizer \<lparr> errors := [(''p'', InvalidValue)] \<rparr>, JObj [(''p'', JStr [])])"
  by (simp add: sanitizer_defs path_defs rule_defs regex_defs)

section \<open>Key paths\<close>


lemma js_in_falsy: "\<not> truthy v \<Longrightarrow> js_in d v = Inl TypeError"
  by (cases v) (simp_all add: js_in_def)

lemma js_in_one: "js_in d (JNum 1) = Inl TypeError"
  by (simp add: js_in_def)

lemma js_in_false: "js_in d (JBool False) = Inl TypeError"
  by (simp add: js_in_def)

lemma truthy_not_false: "truthy v \<Longrightarrow> v \<noteq> JBool False"
  by auto

lemma path_present_falsy: "\<not> truthy v \<Longrightarrow> path_present cs v = path_present cs (JNum 1)"
  by (cases cs) (simp_all add: js_in_falsy js_in_one)

lemma isKeyExist_step_throw: "js_in c a = Inl e \<Longrightarrow> isKeyExist_step a c = Inl e"
  by (simp add: isKeyExist_step_def)

lemma isKeyExist_step_absent: "js_in c a = Inr False \<Longrightarrow> isKeyExist_step a c = Inr (JBool False)"
  by (simp add: isKeyExist_step_def)

lemma isKeyExist_step_truthy:
  "js_in c a = Inr True \<Longrightarrow> truthy (js_get c a) \<Longrightarrow> isKeyExist_step a c = Inr (js_get c a)"
  by (simp add: isKeyExist_step_def)

lemma isKeyExist_step_falsy:
  "js_in c a = Inr True \<Longrightarrow> \<not> truthy (js_get c a) \<Longrightarrow> isKeyExist_step a c = Inr (JNum 1)"
  by (simp add: isKeyExist_step_def)

lemma reduce_after_false:
  "(\<exists>r. reduce isKeyExist_step cs (JBool False) = Inr r \<and> r \<noteq> JBool False) = False"
  by (cases cs) (simp_all add: isKeyExist_step_throw [OF js_in_false])

lemma reduce_isKeyExist:
  "a \<noteq> JBool False \<Longrightarrow>
   (\<exists>r. reduce isKeyExist_step cs a = Inr r \<and> r \<noteq> JBool False) = path_present cs a"
proof (induction cs arbitrary: a)
  case Nil
  then show ?case by simp
next
  case (Cons c cs)
  show ?case
  proof (cases "js_in c a")
    case (Inl e)
    then show ?thesis by (simp add: isKeyExist_step_throw)
  next
    case (Inr b)
    show ?thesis
    proof (cases b)
      case False
      with Inr have "js_in c a = Inr False" by simp
      then show ?thesis
        using reduce_after_false [of cs] by (simp add: isKeyExist_step_absent)
    next
      case True
      show ?thesis
      proof (cases "truthy (js_get c a)")
        case t: True
        then have "js_get c a \<noteq> JBool False" by (rule truthy_not_false)
        from Cons.IH [OF this] Inr True t show ?thesis
          by (simp add: isKeyExist_step_truthy)
      next
        case f: False
        have "JNum 1 \<noteq> JBool False" by simp
        from Cons.IH [OF this] Inr True f path_present_falsy [OF f, of cs] show ?thesis
          by (simp add: isKeyExist_step_falsy)
      qed
    qed
  qed
qed




section \<open>Phone numbers\<close>

lemma digits_in_simps [simp]:
  "digits_in [] = 0"
  "digits_in (c # p) = (if is_digit c then Suc (digits_in p) else digits_in p)"
  "digits_in (p @ q) = digits_in p + digits_in q"
  by (simp_all add: digits_in_def)

lemma rmatch_digits:
  "no_many r \<Longrightarrow> t \<in> set (rmatch r s) \<Longrightarrow>
   \<exists>p. s = p @ t \<and> dig_lo r \<le> digits_in p \<and> digits_in p \<le> dig_hi r"
proof (induction r arbitrary: s t)
  case Eps
  then show ?case by simp
next
  case (Cls cs)
  then obtain c where s: "s = c # t" and c: "c \<in> set cs"
    by (cases s) (auto split: if_splits)
  have "s = [c] @ t \<and> dig_lo (Cls cs) \<le> digits_in [c] \<and> digits_in [c] \<le> dig_hi (Cls cs)"
    using s c by (auto simp: list_all_iff list_ex_iff)
  then show ?case by blast
next
  case (Many cs)
  then show ?case by simp
next
  case (Seq a b)
  from Seq.prems obtain u where u: "u \<in> set (rmatch a s)" and t: "t \<in> set (rmatch b u)"
    by auto
  from Seq.prems have na: "no_many a" and nb: "no_many b" by simp_all
  from Seq.IH(1) [OF na u] obtain p where
    p: "s = p @ u" "dig_lo a \<le> digits_in p" "digits_in p \<le> dig_hi a" by blast
  from Seq.IH(2) [OF nb t] obtain q where
    q: "u = q @ t" "dig_lo b \<le> digits_in q" "digits_in q \<le> dig_hi b" by blast
  have "s = (p @ q) @ t \<and> dig_lo (Seq a b) \<le> digits_in (p @ q) \<and> digits_in (p @ q) \<le> dig_hi (Seq a b)"
    using p q by simp
  then show ?case by blast
next
  case (Alt a b)
  from Alt.prems have "t \<in> set (rmatch a s) \<or> t \<in> set (rmatch b s)" by simp
  then show ?case
  proof
    assume "t \<in> set (rmatch a s)"
    with Alt.IH(1) Alt.prems(1) obtain p where
      "s = p @ t" "dig_lo a \<le> digits_in p" "digits_in p \<le> dig_hi a" by auto
    then have "s = p @ t \<and> dig_lo (Alt a b) \<le> digits_in p \<and> digits_in p \<le> dig_hi (Alt a b)"
      by (simp add: min_def max_def)
    then show ?thesis by blast
  next
    assume "t \<in> set (rmatch b s)"
    with Alt.IH(2) Alt.prems(1) obtain p where
      "s = p @ t" "dig_lo b \<le> digits_in p" "digits_in p \<le> dig_hi b" by auto
    then have "s = p @ t \<and> dig_lo (Alt a b) \<le> digits_in p \<and> digits_in p \<le> dig_hi (Alt a b)"
      by (simp add: min_def max_def)
    then show ?thesis by blast
  qed
next
  case (Opt a)
  from Opt.prems have "t \<in> set (rmatch a s) \<or> t = s" by auto
  then show ?case
  proof
    assume "t \<in> set (rmatch a s)"
    with Opt.IH Opt.prems(1) obtain p where
      "s = p @ t" "dig_lo a \<le> digits_in p" "digits_in p \<le> dig_hi a" by auto
    then have "s = p @ t \<and> dig_lo (Opt a) \<le> digits_in p \<and> digits_in p \<le> dig_hi (Opt a)"
      by simp
    then show ?thesis by blast
  next
    assume "t = s"
    then have "s = [] @ t \<and> dig_lo (Opt a) \<le> digits_in [] \<and> digits_in [] \<le> dig_hi (Opt a)"
      by simp
    then show ?thesis by blast
  qed
qed

lemma phone_re_bounds: "no_many phone_re \<and> dig_lo phone_re = 4 \<and> dig_hi phone_re = 14"
  by (simp add: phone_re_def Chr_def digit_def is_digit_def eval_nat_numeral)

lemma phone_digit_count:
  assumes "re_test phone_re s"
  shows "4 \<le> digits_in s \<and> digits_in s \<le> 14"
proof -
  from assms have "[] \<in> set (rmatch phone_re s)" by (simp add: re_test_def)
  with phone_re_bounds rmatch_digits [of phone_re "[]" s] show ?thesis by auto
qed

lemma phone_prefix:
  assumes "re_test phone_re s"
  shows "\<exists>t. s = CHR ''8'' # t \<or> s = CHR ''7'' # t \<or> s = CHR ''+'' # CHR ''7'' # t"
proof -
  from assms obtain u where
    "u \<in> set (rmatch (Alt (Chr CHR ''8'') (Alt (Chr CHR ''7'') (Seq (Chr CHR ''+'') (Chr CHR ''7'')))) s)"
    by (auto simp: re_test_def phone_re_def)
  then show ?thesis
    by (cases s) (auto simp: Chr_def split: if_splits list.splits)
qed

lemma normalized_phone:
  assumes "re_test phone_re s"
  shows "hd (strip_non_digits (replace_leading_8 s)) = CHR ''7''
       \<and> list_all is_digit (strip_non_digits (replace_leading_8 s))
       \<and> 4 \<le> length (strip_non_digits (replace_leading_8 s))
       \<and> length (strip_non_digits (replace_leading_8 s)) \<le> 14"
proof -
  from phone_prefix [OF assms] obtain t where
    t: "s = CHR ''8'' # t \<or> s = CHR ''7'' # t \<or> s = CHR ''+'' # CHR ''7'' # t" by blast
  then have h: "hd (strip_non_digits (replace_leading_8 s)) = CHR ''7''"
    by (auto simp: strip_non_digits_def is_digit_def)
  from t have "length (strip_non_digits (replace_leading_8 s)) = digits_in s"
    by (auto simp: strip_non_digits_def digits_in_def is_digit_def)
  with phone_digit_count [OF assms] h show ?thesis
    by (simp add: strip_non_digits_def list_all_iff)
qed

text \<open>
  Claim C7, as amended. For every string accepted by \<open>isPhone\<close>,
  \<open>PhoneRule.sanitize\<close> reports nothing and returns the string with a leading \<open>8\<close>
  rewritten to \<open>7\<close> and every character that is not a digit removed; the result
  begins with \<open>7\<close> and has between 4 and 14 digits. For every value that
  \<open>isPhone\<close> rejects it reports \<open>InvalidValue\<close> and returns the empty string.
  The three examples of the specification hold.
\<close>

theorem PhoneRule_normalizes:
  "(isPhone (JStr s) \<longrightarrow>
      PhoneRule_sanitize (JStr s) = Inr ([], JStr (strip_non_digits (replace_leading_8 s)))
      \<and> hd (strip_non_digits (replace_leading_8 s)) = CHR ''7''
      \<and> list_all is_digit (strip_non_digits (replace_leading_8 s))
      \<and> 4 \<le> length (strip_non_digits (replace_leading_8 s))
      \<and> length (strip_non_digits (replace_leading_8 s)) \<le> 14)
   \<and> (\<not> isPhone v \<longrightarrow> PhoneRule_sanitize v = Inr ([(InvalidValue, None)], JStr []))
   \<and> PhoneRule_sanitize (JStr ''+7 (800) 555-35-35'') = Inr ([], JStr ''78005553535'')
   \<and> PhoneRule_sanitize (JStr ''8 (800) 555-35-35'') = Inr ([], JStr ''78005553535'')
   \<and> PhoneRule_sanitize (JStr ''555-35-35'') = Inr ([(InvalidValue, None)], JStr [])"
proof -
  have a: "isPhone (JStr s) \<longrightarrow>
      PhoneRule_sanitize (JStr s) = Inr ([], JStr (strip_non_digits (replace_leading_8 s)))
      \<and> hd (strip_non_digits (replace_leading_8 s)) = CHR ''7''
      \<and> list_all is_digit (strip_non_digits (replace_leading_8 s))
      \<and> 4 \<le> length (strip_non_digits (replace_leading_8 s))
      \<and> length (strip_non_digits (replace_leading_8 s)) \<le> 14"
  proof
    assume p: "isPhone (JStr s)"
    then have "re_test phone_re s" by (simp add: isPhone_def re_test_val_def)
    from normalized_phone [OF this] p show "PhoneRule_sanitize (JStr s) = Inr ([], JStr (strip_non_digits (replace_leading_8 s)))
      \<and> hd (strip_non_digits (replace_leading_8 s)) = CHR ''7''
      \<and> list_all is_digit (strip_non_digits (replace_leading_8 s))
      \<and> 4 \<le> length (strip_non_digits (replace_leading_8 s))
      \<and> length (strip_non_digits (replace_leading_8 s)) \<le> 14"
      by (simp add: PhoneRule_sanitize_def)
  qed
  have b: "\<not> isPhone v \<longrightarrow> PhoneRule_sanitize v = Inr ([(InvalidValue, None)], JStr [])"
    by (simp add: PhoneRule_sanitize_def strip_non_digits_def)
  have c: "PhoneRule_sanitize (JStr ''+7 (800) 555-35-35'') = Inr ([], JStr ''78005553535'')"
    by (simp add: rule_defs regex_defs)
  have d: "PhoneRule_sanitize (JStr ''8 (800) 555-35-35'') = Inr ([], JStr ''78005553535'')"
    by (simp add: rule_defs regex_defs)
  have e: "PhoneRule_sanitize (JStr ''555-35-35'') = Inr ([(InvalidValue, None)], JStr [])"
    by (simp add: rule_defs regex_defs)
  from a b c d e show ?thesis by blast
qed

text \<open>A valid number written with a leading \<open>8\<close>, and \<open>null\<close>.\<close>

theorem PhoneRule_normalizes_witness:
  "isPhone (JStr ''8 (800) 555-35-35'')
   \<and> PhoneRule_sanitize (JStr ''8 (800) 555-35-35'')
       = Inr ([], JStr (strip_non_digits (replace_leading_8 ''8 (800) 555-35-35'')))
   \<and> hd (strip_non_digits (replace_leading_8 ''8 (800) 555-35-35'')) = CHR ''7''
   \<and> length (strip_non_digits (replace_leading_8 ''8 (800) 555-35-35'')) \<le> 14
   \<and> \<not> isPhone JNull
   \<and> PhoneRule_sanitize JNull = Inr ([(InvalidValue, None)], JStr [])"
proof -
  have p: "isPhone (JStr ''8 (800) 555-35-35'')"
    by (simp add: isPhone_def regex_defs)
  from PhoneRule_normalizes [of "''8 (800) 555-35-35''" JNull] p isPhone_null
  show ?thesis by blast
qed

section \<open>The error report\<close>

lemma map_of_obj_set: "map_of (obj_set k v ps) = (map_of ps)(k \<mapsto> v)"
  by (induction ps) (auto simp: fun_eq_iff)

lemma extra_fields_lookup:
  "map_of (extra_fields specKeys payloadKeys errs) k
     = (if k \<in> set payloadKeys \<and> k \<notin> set specKeys then Some ExtraField else map_of errs k)"
  unfolding extra_fields_def
  by (induction payloadKeys arbitrary: errs) (auto simp: map_of_obj_set)

lemma record_calls_other:
  "k \<noteq> specKey \<Longrightarrow> map_of (record_calls specKey calls errs) k = map_of errs k"
  unfolding record_calls_def
  by (induction calls arbitrary: errs) (simp_all add: map_of_obj_set)

lemma spec_step_other:
  assumes "spec_step rs spec payload flatPayload st specKey = Inr st'" and "k \<noteq> specKey"
  shows "map_of (fst st') k = map_of (fst st) k"
  using assms
  by (auto simp: spec_step_def map_of_obj_set record_calls_other
           split: sum.splits if_splits option.splits prod.splits)

lemma reduce_spec_step_other:
  assumes "reduce (spec_step rs spec payload flatPayload) keys st = Inr st'" and "k \<notin> set keys"
  shows "map_of (fst st') k = map_of (fst st) k"
  using assms
proof (induction keys arbitrary: st)
  case Nil
  then show ?case by simp
next
  case (Cons key keys)
  from Cons.prems(1) obtain st1 where
    s1: "spec_step rs spec payload flatPayload st key = Inr st1" and
    r: "reduce (spec_step rs spec payload flatPayload) keys st1 = Inr st'"
    by (auto split: sum.splits)
  from Cons.prems(2) have "k \<noteq> key" and "k \<notin> set keys" by simp_all
  with Cons.IH [OF r] spec_step_other [OF s1] show ?case by simp
qed

text \<open>
  Claim C1, as amended. When \<open>sanitizeBySpec\<close> returns, take a path that is absent
  from the flattened spec. If the flattened spec and the flattened payload have
  different numbers of keys and the path is present in the flattened payload, the
  error report holds \<open>ExtraField\<close> at that path. If the two numbers of keys are
  equal, the reconciliation is skipped: the call records nothing at the path, whose
  entry in the report is what it was before the call.
\<close>

theorem extra_fields_recorded:
  assumes "sanitizeBySpec this spec payload = Inr (this', out)"
      and "toFlatObject spec = Inr flatSpec"
      and "toFlatObject payload = Inr flatPayload"
      and "\<not> obj_has k flatSpec"
  shows "(length flatSpec \<noteq> length flatPayload \<longrightarrow> obj_has k flatPayload \<longrightarrow>
            map_of (errors this') k = Some ExtraField)
       \<and> (length flatSpec = length flatPayload \<longrightarrow>
            map_of (errors this') k = map_of (errors this) k)"
proof -
  let ?errs = "if length (map fst flatSpec) \<noteq> length (map fst flatPayload)
               then extra_fields (map fst flatSpec) (map fst flatPayload) (errors this)
               else errors this"
  from assms(1-3) obtain errs' where
    r: "reduce (spec_step (rules this) spec payload flatPayload) (map fst flatSpec) (?errs, JObj [])
          = Inr (errs', out)" and
    e: "errors this' = errs'"
    by (auto simp: sanitizeBySpec_def Let_def split: sum.splits prod.splits)
  from assms(4) have "k \<notin> set (map fst flatSpec)" by (simp add: obj_has_def)
  from reduce_spec_step_other [OF r this] e
  have after: "map_of (errors this') k = map_of ?errs k" by simp
  have differ: "map_of (errors this') k = Some ExtraField"
    if "length flatSpec \<noteq> length flatPayload" and "obj_has k flatPayload"
    using after that assms(4) by (simp add: extra_fields_lookup obj_has_def)
  have equal: "map_of (errors this') k = map_of (errors this) k"
    if "length flatSpec = length flatPayload"
    using after that by simp
  from differ equal show ?thesis by blast
qed

text \<open>
  The extra field \<open>foo.bar.qux\<close> of the test suite, where the numbers of keys
  differ, and the payload \<open>{b: '1'}\<close> against the spec \<open>{a: 'int'}\<close>, where they are
  equal.
\<close>

theorem extra_fields_recorded_witness:
  "sanitizeBySpec StandardSanitizer
      (JObj [(''foo'', JObj [(''bar'', JObj [(''baz'', JStr ''int'')])])])
      (JObj [(''foo'', JObj [(''bar'', JObj [(''baz'', JStr ''123''), (''qux'', JNum 123)])])])
    = Inr (StandardSanitizer \<lparr> errors := [(''foo.bar.qux'', ExtraField)] \<rparr>,
           JObj [(''foo'', JObj [(''bar'', JObj [(''baz'', JNum 123)])])])
   \<and> length [(''foo.bar.baz'', JStr ''int'')] \<noteq> length [(''foo.bar.baz'', JStr ''123''), (''foo.bar.qux'', JNum 123)]
   \<and> obj_has ''foo.bar.qux'' [(''foo.bar.baz'', JStr ''123''), (''foo.bar.qux'', JNum 123)]
   \<and> map_of (errors (StandardSanitizer \<lparr> errors := [(''foo.bar.qux'', ExtraField)] \<rparr>)) ''foo.bar.qux''
        = Some ExtraField
   \<and> sanitizeBySpec StandardSanitizer (JObj [(''a'', JStr ''int'')]) (JObj [(''b'', JStr ''1'')])
        = Inr (StandardSanitizer \<lparr> errors := [(''a'', KeyDoesNotExist)] \<rparr>, JObj [])
   \<and> length [(''a'', JStr ''int'')] = length [(''b'', JStr ''1'')]
   \<and> obj_has ''b'' [(''b'', JStr ''1'')]
   \<and> map_of (errors (StandardSanitizer \<lparr> errors := [(''a'', KeyDoesNotExist)] \<rparr>)) ''b''
        = map_of (errors StandardSanitizer) ''b''"
proof -
  let ?spec = "JObj [(''foo'', JObj [(''bar'', JObj [(''baz'', JStr ''int'')])])]"
  let ?payload = "JObj [(''foo'', JObj [(''bar'', JObj [(''baz'', JStr ''123''), (''qux'', JNum 123)])])]"
  have a: "sanitizeBySpec StandardSanitizer ?spec ?payload
    = Inr (StandardSanitizer \<lparr> errors := [(''foo.bar.qux'', ExtraField)] \<rparr>,
           JObj [(''foo'', JObj [(''bar'', JObj [(''baz'', JNum 123)])])])"
    by (simp add: sanitizer_defs path_defs rule_defs regex_defs)
  have b: "toFlatObject ?spec = Inr [(''foo.bar.baz'', JStr ''int'')]"
    by (simp add: toFlatObject_def own_props_def)
  have c: "toFlatObject ?payload = Inr [(''foo.bar.baz'', JStr ''123''), (''foo.bar.qux'', JNum 123)]"
    by (simp add: toFlatObject_def own_props_def)
  have d: "length [(''foo.bar.baz'', JStr ''int'')] \<noteq> length [(''foo.bar.baz'', JStr ''123''), (''foo.bar.qux'', JNum 123)]"
    by simp
  have e: "obj_has ''foo.bar.qux'' [(''foo.bar.baz'', JStr ''123''), (''foo.bar.qux'', JNum 123)]"
    by (simp add: obj_has_def)
  have f: "\<not> obj_has ''foo.bar.qux'' [(''foo.bar.baz'', JStr ''int'')]"
    by (simp add: obj_has_def)
  have first: "map_of (errors (StandardSanitizer \<lparr> errors := [(''foo.bar.qux'', ExtraField)] \<rparr>)) ''foo.bar.qux''
        = Some ExtraField"
    using extra_fields_recorded [OF a b c f] d e by blast
  have a2: "sanitizeBySpec StandardSanitizer (JObj [(''a'', JStr ''int'')]) (JObj [(''b'', JStr ''1'')])
        = Inr (StandardSanitizer \<lparr> errors := [(''a'', KeyDoesNotExist)] \<rparr>, JObj [])"
    by (simp add: sanitizer_defs path_defs)
  have b2: "toFlatObject (JObj [(''a'', JStr ''int'')]) = Inr [(''a'', JStr ''int'')]"
    by (simp add: toFlatObject_def own_props_def)
  have c2: "toFlatObject (JObj [(''b'', JStr ''1'')]) = Inr [(''b'', JStr ''1'')]"
    by (simp add: toFlatObject_def own_props_def)
  have d2: "length [(''a'', JStr ''int'')] = length [(''b'', JStr ''1'')]" by simp
  have e2: "obj_has ''b'' [(''b'', JStr ''1'')]" by (simp add: obj_has_def)
  have f2: "\<not> obj_has ''b'' [(''a'', JStr ''int'')]" by (simp add: obj_has_def)
  have second: "map_of (errors (StandardSanitizer \<lparr> errors := [(''a'', KeyDoesNotExist)] \<rparr>)) ''b''
        = map_of (errors StandardSanitizer) ''b''"
    using extra_fields_recorded [OF a2 b2 c2 f2] d2 by blast
  from a d e first a2 d2 e2 second show ?thesis by blast
qed

section \<open>Writing the sanitized payload\<close>

lemma obj_has_obj_set: "obj_has c (obj_set c' v kvs) = (c = c' \<or> obj_has c kvs)"
  by (induction kvs) (auto simp: obj_has_def)

lemma obj_get_obj_set: "obj_get c (obj_set c' v kvs) = (if c = c' then v else obj_get c kvs)"
  by (simp add: obj_get_def map_of_obj_set)

lemma js_assign_object:
  assumes "js_assign a c' v' = Inr a'"
  obtains kvs where "a = JObj kvs" and "a' = JObj (obj_set c' v' kvs)"
  using assms by (cases a) (auto simp: js_assign_def split: if_splits)

lemma js_assign_not_leaf: "js_assign a c v = Inr a' \<Longrightarrow> \<not> is_leaf a"
  by (erule js_assign_object) simp

lemma js_in_own: "js_in c (JObj kvs) = Inr b \<Longrightarrow> b = obj_has c kvs"
  by (auto simp: js_in_def split: if_splits)

lemma value_at_assigned:
  "js_assign a c v = Inr a' \<Longrightarrow> value_at (c # cs) a' = value_at cs v"
  by (erule js_assign_object) (simp add: obj_has_obj_set obj_get_obj_set)

lemma value_at_not_assigned:
  "js_assign a c' v' = Inr a' \<Longrightarrow> c \<noteq> c' \<Longrightarrow> value_at (c # cs) a' = value_at (c # cs) a"
  by (erule js_assign_object) (simp add: obj_has_obj_set obj_get_obj_set)

lemma value_at_set_path:
  "set_path a segs v = Inr a' \<Longrightarrow> segs \<noteq> [] \<Longrightarrow> value_at segs a' = Some v"
proof (induction a segs v arbitrary: a' rule: set_path.induct)
  case (1 a v)
  then show ?case by simp
next
  case (2 a c v)
  then have "js_assign a c v = Inr a'" by simp
  from value_at_assigned [OF this, of "[]"] show ?case by simp
next
  case (3 a c d cs v)
  from "3.prems"(1) obtain b child where
    b: "js_in c a = Inr b" and
    ch: "set_path (if b then js_get c a else JObj []) (d # cs) v = Inr child" and
    as: "js_assign a c child = Inr a'"
    by (auto split: sum.splits)
  from "3.IH" [OF b ch] have "value_at (d # cs) child = Some v" by simp
  with value_at_assigned [OF as, of "d # cs"] show ?case by simp
qed

lemma value_at_other_path:
  "set_path a segs' v' = Inr a' \<Longrightarrow> value_at segs a = Some v \<Longrightarrow> is_leaf v \<Longrightarrow>
   \<not> is_prefix segs' segs \<Longrightarrow> value_at segs a' = Some v"
proof (induction a segs' v' arbitrary: a' segs rule: set_path.induct)
  case (1 a v')
  then show ?case by simp
next
  case (2 a c' v')
  from "2.prems"(1) have as: "js_assign a c' v' = Inr a'" by simp
  show ?case
  proof (cases segs)
    case Nil
    with "2.prems"(2,3) js_assign_not_leaf [OF as] show ?thesis by simp
  next
    case (Cons c cs)
    with "2.prems"(4) have ne: "c \<noteq> c'" by auto
    from "2.prems"(2) Cons value_at_not_assigned [OF as ne, of cs]
    show ?thesis by simp
  qed
next
  case (3 a c' d' cs' v')
  from "3.prems"(1) obtain b child where
    b: "js_in c' a = Inr b" and
    ch: "set_path (if b then js_get c' a else JObj []) (d' # cs') v' = Inr child" and
    as: "js_assign a c' child = Inr a'"
    by (auto split: sum.splits)
  show ?case
  proof (cases segs)
    case Nil
    with "3.prems"(2,3) js_assign_not_leaf [OF as] show ?thesis by simp
  next
    case (Cons c cs)
    show ?thesis
    proof (cases "c = c'")
      case False
      from "3.prems"(2) Cons value_at_not_assigned [OF as False, of cs]
      show ?thesis by simp
    next
      case True
      from as obtain kvs where a: "a = JObj kvs" by (rule js_assign_object)
      from "3.prems"(2) Cons True a have h: "obj_has c' kvs"
        and va: "value_at cs (obj_get c' kvs) = Some v"
        by (auto split: if_splits)
      from b a h have "b = True" by (auto dest: js_in_own)
      with ch a have ch': "set_path (obj_get c' kvs) (d' # cs') v' = Inr child"
        by (simp add: js_get_def)
      from "3.prems"(4) Cons True have np: "\<not> is_prefix (d' # cs') cs" by simp
      from "3.IH" [OF b] ch va "3.prems"(3) np \<open>b = True\<close> a
      have "value_at cs child = Some v" by (simp add: js_get_def)
      with value_at_assigned [OF as, of cs] Cons True show ?thesis by simp
    qed
  qed
qed

lemma split_dot_not_Nil: "split_dot k \<noteq> []"
  by (induction k) (auto split: list.splits)

lemma parseInt_zero: "parseInt (JNum 0) = Inr (JNum 0)"
  by (simp add: parseInt_def num_to_string_def is_integral_def int_to_string_def digits_of.simps
        digit_char_def parseInt_str_def is_space_def is_digit_def nat_of_digits_def digit_val_def)

lemma scalar_invalid:
  assumes "scalar r" and "signalled (sanitize r) v"
  shows "sanitize r v = Inr ([(InvalidValue, None)], default_of r)"
proof (cases r)
  case IntegerRule
  with assms(2) show ?thesis
    by (auto simp: signalled_def IntegerRule_sanitize_def Let_def parseInt_zero
             split: sum.splits if_splits)
next
  case FloatRule
  with assms(2) show ?thesis
    by (auto simp: signalled_def FloatRule_sanitize_def Let_def parseFloat_def
             split: sum.splits if_splits)
next
  case StringRule
  with assms(2) show ?thesis
    by (auto simp: signalled_def StringRule_sanitize_def split: if_splits)
next
  case PhoneRule
  with assms(2) show ?thesis
    by (cases "isPhone v"; cases v)
       (auto simp: signalled_def PhoneRule_sanitize_def strip_non_digits_def)
next
  case (TypedArrayRule r')
  with assms(1) show ?thesis by simp
qed

lemma default_leaf: "scalar r \<Longrightarrow> is_leaf (default_of r)"
  by (cases r) simp_all

lemma record_calls_single:
  "map_of (record_calls specKey [(e, i)] errs) specKey = Some e"
  by (simp add: record_calls_def map_of_obj_set)

lemma spec_step_sets:
  assumes "spec_step rs spec payload flatPayload st specKey = Inr st'"
      and "isKeyExist payload specKey = Inr True"
      and "getValueFromKey spec specKey JNull = Inr ruleName"
      and "to_string ruleName = Some name"
      and "map_of rs name = Some r"
      and "sanitize r (obj_get specKey flatPayload) = Inr ([(e, i)], d)"
  shows "map_of (fst st') specKey = Some e \<and> value_at (split_dot specKey) (snd st') = Some d"
proof -
  from assms obtain out where
    o: "setValueFromKey (snd st) specKey d = Inr out" and
    s: "st' = (record_calls specKey [(e, i)] (fst st), out)"
    by (auto simp: spec_step_def split: sum.splits)
  from o have "value_at (split_dot specKey) out = Some d"
    unfolding setValueFromKey_def by (rule value_at_set_path) (rule split_dot_not_Nil)
  with s show ?thesis by (simp add: record_calls_single)
qed

lemma spec_step_keeps_value:
  assumes "spec_step rs spec payload flatPayload st key = Inr st'"
      and "value_at segs (snd st) = Some d"
      and "is_leaf d"
      and "\<not> is_prefix (split_dot key) segs"
  shows "value_at segs (snd st') = Some d"
proof (cases "snd st' = snd st")
  case True
  with assms(2) show ?thesis by simp
next
  case False
  with assms(1) obtain v where "setValueFromKey (snd st) key v = Inr (snd st')"
    by (auto simp: spec_step_def split: sum.splits if_splits option.splits prod.splits)
  then have "set_path (snd st) (split_dot key) v = Inr (snd st')"
    by (simp add: setValueFromKey_def)
  from value_at_other_path [OF this assms(2,3,4)] show ?thesis .
qed

lemma reduce_spec_step_invariant:
  assumes "reduce (spec_step rs spec payload flatPayload) keys st = Inr st'"
      and "\<forall>k\<in>set keys. k = specKey \<or> \<not> is_prefix (split_dot k) (split_dot specKey)"
      and "isKeyExist payload specKey = Inr True"
      and "getValueFromKey spec specKey JNull = Inr ruleName"
      and "to_string ruleName = Some name"
      and "map_of rs name = Some r"
      and "sanitize r (obj_get specKey flatPayload) = Inr ([(e, i)], d)"
      and "is_leaf d"
      and "(map_of (fst st) specKey = Some e \<and> value_at (split_dot specKey) (snd st) = Some d)
           \<or> specKey \<in> set keys"
  shows "map_of (fst st') specKey = Some e \<and> value_at (split_dot specKey) (snd st') = Some d"
  using assms(1,2,9)
proof (induction keys arbitrary: st)
  case Nil
  then show ?case by simp
next
  case (Cons key keys)
  from Cons.prems(1) obtain st1 where
    s1: "spec_step rs spec payload flatPayload st key = Inr st1" and
    r: "reduce (spec_step rs spec payload flatPayload) keys st1 = Inr st'"
    by (auto split: sum.splits)
  from Cons.prems(2) have rest:
    "\<forall>k\<in>set keys. k = specKey \<or> \<not> is_prefix (split_dot k) (split_dot specKey)" by simp
  have "(map_of (fst st1) specKey = Some e \<and> value_at (split_dot specKey) (snd st1) = Some d)
        \<or> specKey \<in> set keys"
  proof (cases "key = specKey")
    case True
    with s1 spec_step_sets [OF _ assms(3-7)] show ?thesis by blast
  next
    case False
    with Cons.prems(2) have np: "\<not> is_prefix (split_dot key) (split_dot specKey)" by simp
    from Cons.prems(3) False
    have "(map_of (fst st) specKey = Some e \<and> value_at (split_dot specKey) (snd st) = Some d)
          \<or> specKey \<in> set keys" by auto
    then show ?thesis
    proof
      assume p: "map_of (fst st) specKey = Some e \<and> value_at (split_dot specKey) (snd st) = Some d"
      from False have ne: "specKey \<noteq> key" by simp
      from spec_step_other [OF s1 ne] p have "map_of (fst st1) specKey = Some e" by simp
      moreover from spec_step_keeps_value [OF s1 _ assms(8) np] p
      have "value_at (split_dot specKey) (snd st1) = Some d" by simp
      ultimately show ?thesis by simp
    next
      assume "specKey \<in> set keys"
      then show ?thesis by simp
    qed
  qed
  from Cons.IH [OF r rest this] show ?case .
qed

text \<open>
  Claim C2, as amended. When \<open>sanitizeBySpec\<close> returns, and the value at a path of
  the flattened spec fails the format check of its scalar rule, the error report holds
  \<open>InvalidValue\<close> at that path and the sanitized payload holds the default of the
  rule at that path: the path is not omitted. (No other key of the flattened spec may
  be a prefix of the path, segment by segment, which holds of the keys of a nested
  spec.)
\<close>

theorem invalid_scalar_leaf_defaulted:
  assumes "sanitizeBySpec this spec payload = Inr (this', out)"
      and "toFlatObject spec = Inr flatSpec"
      and "toFlatObject payload = Inr flatPayload"
      and "obj_has specKey flatSpec"
      and "\<forall>k\<in>set (map fst flatSpec). k = specKey \<or> \<not> is_prefix (split_dot k) (split_dot specKey)"
      and "isKeyExist payload specKey = Inr True"
      and "getValueFromKey spec specKey JNull = Inr ruleName"
      and "to_string ruleName = Some name"
      and "map_of (rules this) name = Some r"
      and "scalar r"
      and "signalled (sanitize r) (obj_get specKey flatPayload)"
  shows "map_of (errors this') specKey = Some InvalidValue
       \<and> value_at (split_dot specKey) out = Some (default_of r)"
proof -
  from assms(1-3) obtain errs errs' where
    r: "reduce (spec_step (rules this) spec payload flatPayload) (map fst flatSpec) (errs, JObj [])
          = Inr (errs', out)" and
    e: "errors this' = errs'"
    by (auto simp: sanitizeBySpec_def Let_def split: sum.splits prod.splits)
  have s: "sanitize r (obj_get specKey flatPayload) = Inr ([(InvalidValue, None)], default_of r)"
    by (rule scalar_invalid [OF assms(10,11)])
  have p: "is_leaf (default_of r)" by (rule default_leaf [OF assms(10)])
  from assms(4) have "specKey \<in> set (map fst flatSpec)" by (simp add: obj_has_def)
  then have i: "(map_of (fst (errs, JObj [])) specKey = Some InvalidValue
        \<and> value_at (split_dot specKey) (snd (errs, JObj [])) = Some (default_of r))
      \<or> specKey \<in> set (map fst flatSpec)" by simp
  from reduce_spec_step_invariant [OF r assms(5,6,7,8,9) s p i] e show ?thesis by simp
qed

text \<open>
  The example of the specification: \<open>"123qux"\<close> under \<open>int\<close> gives the report
  \<open>{"foo.bar.baz": InvalidValue}\<close> and the output \<open>{foo: {bar: {baz: 0}}}\<close>.
\<close>

theorem invalid_scalar_leaf_defaulted_witness:
  "sanitizeBySpec StandardSanitizer
      (JObj [(''foo'', JObj [(''bar'', JObj [(''baz'', JStr ''int'')])])])
      (JObj [(''foo'', JObj [(''bar'', JObj [(''baz'', JStr ''123qux'')])])])
    = Inr (StandardSanitizer \<lparr> errors := [(''foo.bar.baz'', InvalidValue)] \<rparr>,
           JObj [(''foo'', JObj [(''bar'', JObj [(''baz'', JNum 0)])])])
   \<and> signalled (sanitize IntegerRule) (obj_get ''foo.bar.baz'' [(''foo.bar.baz'', JStr ''123qux'')])
   \<and> map_of (errors (StandardSanitizer \<lparr> errors := [(''foo.bar.baz'', InvalidValue)] \<rparr>)) ''foo.bar.baz''
       = Some InvalidValue
   \<and> value_at (split_dot ''foo.bar.baz'') (JObj [(''foo'', JObj [(''bar'', JObj [(''baz'', JNum 0)])])])
       = Some (default_of IntegerRule)"
proof -
  let ?spec = "JObj [(''foo'', JObj [(''bar'', JObj [(''baz'', JStr ''int'')])])]"
  let ?payload = "JObj [(''foo'', JObj [(''bar'', JObj [(''baz'', JStr ''123qux'')])])]"
  have a: "sanitizeBySpec StandardSanitizer ?spec ?payload
    = Inr (StandardSanitizer \<lparr> errors := [(''foo.bar.baz'', InvalidValue)] \<rparr>,
           JObj [(''foo'', JObj [(''bar'', JObj [(''baz'', JNum 0)])])])"
    by (simp add: sanitizer_defs path_defs rule_defs regex_defs)
  have b: "toFlatObject ?spec = Inr [(''foo.bar.baz'', JStr ''int'')]"
    by (simp add: toFlatObject_def own_props_def)
  have c: "toFlatObject ?payload = Inr [(''foo.bar.baz'', JStr ''123qux'')]"
    by (simp add: toFlatObject_def own_props_def)
  have d: "obj_has ''foo.bar.baz'' [(''foo.bar.baz'', JStr ''int'')]"
    by (simp add: obj_has_def)
  have e: "\<forall>k\<in>set (map fst [(''foo.bar.baz'', JStr ''int'')]).
             k = ''foo.bar.baz'' \<or> \<not> is_prefix (split_dot k) (split_dot ''foo.bar.baz'')"
    by simp
  have f: "isKeyExist ?payload ''foo.bar.baz'' = Inr True"
    by (simp add: path_defs)
  have g: "getValueFromKey ?spec ''foo.bar.baz'' JNull = Inr (JStr ''int'')"
    by (simp add: path_defs)
  have h: "to_string (JStr ''int'') = Some ''int''" by simp
  have i: "map_of (rules StandardSanitizer) ''int'' = Some IntegerRule"
    by (simp add: StandardSanitizer_def new_Sanitizer_def)
  have j: "scalar IntegerRule" by simp
  have k: "signalled (sanitize IntegerRule) (obj_get ''foo.bar.baz'' [(''foo.bar.baz'', JStr ''123qux'')])"
    by (simp add: signalled_def obj_get_def rule_defs regex_defs)
  from invalid_scalar_leaf_defaulted [OF a b c d e f g h i j k] a k show ?thesis by blast
qed

section \<open>Sanitizing a sanitized payload\<close>

lemma leaves_val_object [simp]: "leaves_val (JObj kvs) = leaves_kvs kvs"
  by simp

lemma leaves_val_leaf [simp]: "is_leaf v \<Longrightarrow> leaves_val v = [([], v)]"
  by (cases v) simp_all

declare leaves_val.simps [simp del]

lemma put_leaves_simps [simp]:
  "put_leaves prefix res [] = res"
  "put_leaves prefix res (qx # ls) = put_leaves prefix (obj_set (pathkey prefix (fst qx)) (snd qx) res) ls"
  "put_leaves prefix res (ls @ ms) = put_leaves prefix (put_leaves prefix res ls) ms"
  by (simp_all add: put_leaves_def)

lemma put_leaves_shift:
  "put_leaves prefix res (map (\<lambda>qx. (c # fst qx, snd qx)) ls) = put_leaves (dot_join prefix c) res ls"
  by (induction ls arbitrary: res) simp_all

lemma flat_leaves:
  "(\<forall>qx\<in>set (leaves_val val). snd qx \<noteq> JNull \<and> pathkey (dot_join pre key) (fst qx) \<noteq> ''__proto__'')
     \<Longrightarrow> flat res key val pre = Inr (put_leaves (dot_join pre key) res (leaves_val val))"
  "(\<forall>qx\<in>set (leaves_kvs kvs). snd qx \<noteq> JNull \<and> pathkey prefix (fst qx) \<noteq> ''__proto__'')
     \<Longrightarrow> flat_keys res kvs prefix = Inr (put_leaves prefix res (leaves_kvs kvs))"
proof (induction res key val pre and res kvs prefix rule: flat_flat_keys.induct)
  case (1 res key val pre)
  show ?case
  proof (cases val)
    case (JObj kvs)
    with "1.prems" "1.IH" [OF refl JObj] show ?thesis
      by (simp add: dot_join_def)
  qed (use "1.prems" in \<open>simp_all add: dot_join_def\<close>)
next
  case (2 res prefix)
  then show ?case by simp
next
  case (3 res kv kvs prefix)
  have a: "\<forall>qx\<in>set (leaves_val (snd kv)).
      snd qx \<noteq> JNull \<and> pathkey (dot_join prefix (fst kv)) (fst qx) \<noteq> ''__proto__''"
  proof
    fix qx
    assume "qx \<in> set (leaves_val (snd kv))"
    then have "(fst kv # fst qx, snd qx) \<in> set (leaves_kvs (kv # kvs))" by simp
    from bspec [OF "3.prems" this]
    show "snd qx \<noteq> JNull \<and> pathkey (dot_join prefix (fst kv)) (fst qx) \<noteq> ''__proto__''"
      by simp
  qed
  from "3.prems" have b: "\<forall>qx\<in>set (leaves_kvs kvs). snd qx \<noteq> JNull \<and> pathkey prefix (fst qx) \<noteq> ''__proto__''"
    by auto
  have f: "flat res (fst kv) (snd kv) prefix
      = Inr (put_leaves (dot_join prefix (fst kv)) res (leaves_val (snd kv)))"
    by (rule "3.IH"(1) [OF a])
  from "3.IH"(2) [OF f b] f show ?case
    by (simp add: put_leaves_shift del: leaves_val.simps flat.simps)
qed


lemma put_leaves_map_of:
  "\<forall>qx\<in>set ls. pathkey prefix (fst qx) = k \<longrightarrow> snd qx = x \<Longrightarrow>
   map_of (put_leaves prefix res ls) k
     = (if \<exists>qx\<in>set ls. pathkey prefix (fst qx) = k then Some x else map_of res k)"
proof (induction ls arbitrary: res)
  case Nil
  then show ?case by simp
next
  case (Cons qx ls)
  from Cons.prems have rest: "\<forall>qx\<in>set ls. pathkey prefix (fst qx) = k \<longrightarrow> snd qx = x" by simp
  from Cons.prems have here: "pathkey prefix (fst qx) = k \<longrightarrow> snd qx = x" by simp
  from Cons.IH [OF rest, of "obj_set (pathkey prefix (fst qx)) (snd qx) res"] here
  show ?case by (auto simp: map_of_obj_set)
qed

lemma keys_obj_set: "fst ` set (obj_set k v ps) = insert k (fst ` set ps)"
  by (induction ps) auto

lemma put_leaves_keys:
  "set (map fst (put_leaves prefix res ls))
     = set (map fst res) \<union> (\<lambda>qx. pathkey prefix (fst qx)) ` set ls"
  by (induction ls arbitrary: res) (auto simp: keys_obj_set)

lemma join_Cons: "join sep ((c # x) # xs) = c # join sep (x # xs)"
  by (cases xs) simp_all

lemma join_split_dot: "join ''.'' (split_dot k) = k"
proof (induction k)
  case Nil
  show ?case by simp
next
  case (Cons c s)
  obtain x xs where sp: "split_dot s = x # xs"
    using split_dot_not_Nil [of s] by (cases "split_dot s") auto
  with Cons show ?case by (simp add: join_Cons)
qed

lemma join_first: "join ''.'' ((a @ CHR ''.'' # c) # cs) = a @ CHR ''.'' # join ''.'' (c # cs)"
  by (cases cs) simp_all

lemma dot_join_nonempty: "pre \<noteq> [] \<Longrightarrow> c \<noteq> [] \<Longrightarrow> dot_join pre c = pre @ ''.'' @ c"
  by (simp add: dot_join_def)

lemma dot_join_empty: "c \<noteq> [] \<Longrightarrow> dot_join [] c = c"
  by (simp add: dot_join_def)

lemma pathkey_join:
  "pre \<noteq> [] \<Longrightarrow> [] \<notin> set cs \<Longrightarrow> pathkey pre cs = join ''.'' (pre # cs)"
proof (induction cs arbitrary: pre)
  case Nil
  show ?case by simp
next
  case (Cons c cs)
  from Cons.prems have c: "c \<noteq> []" and cs: "[] \<notin> set cs" by auto
  have "pathkey pre (c # cs) = pathkey (pre @ ''.'' @ c) cs"
    using Cons.prems(1) c by (simp add: dot_join_nonempty)
  also have "\<dots> = join ''.'' ((pre @ ''.'' @ c) # cs)"
    by (rule Cons.IH) (use cs in simp_all)
  also have "\<dots> = join ''.'' (pre # c # cs)"
    by (simp add: join_first)
  finally show ?case .
qed

lemma pathkey_split_dot:
  assumes "[] \<notin> set (split_dot k)"
  shows "pathkey [] (split_dot k) = k"
proof -
  obtain c cs where sp: "split_dot k = c # cs"
    using split_dot_not_Nil [of k] by (cases "split_dot k") auto
  with assms have c: "c \<noteq> []" and cs: "[] \<notin> set cs" by auto
  have "pathkey [] (c # cs) = pathkey c cs" using c by (simp add: dot_join_empty)
  also have "\<dots> = join ''.'' (c # cs)" by (rule pathkey_join [OF c cs])
  finally show ?thesis using join_split_dot [of k] sp by simp
qed

lemma leaves_obj_set:
  "set (leaves_kvs (obj_set c v kvs))
     \<subseteq> (\<lambda>qx. (c # fst qx, snd qx)) ` set (leaves_val v) \<union> set (leaves_kvs kvs)"
  by (induction kvs) auto

lemma leaves_of_entry:
  "obj_has c kvs \<Longrightarrow>
   (\<lambda>qx. (c # fst qx, snd qx)) ` set (leaves_val (obj_get c kvs)) \<subseteq> set (leaves_kvs kvs)"
  by (induction kvs) (auto simp: obj_has_def obj_get_def)

lemma leaves_set_path:
  "set_path a segs v = Inr a' \<Longrightarrow> is_leaf v \<Longrightarrow> segs \<noteq> [] \<Longrightarrow>
   set (leaves_val a') \<subseteq> insert (segs, v) (set (leaves_val a))"
proof (induction a segs v arbitrary: a' rule: set_path.induct)
  case (1 a v)
  then show ?case by simp
next
  case (2 a c v)
  then have "js_assign a c v = Inr a'" by simp
  then obtain kvs where a: "a = JObj kvs" and a': "a' = JObj (obj_set c v kvs)"
    by (rule js_assign_object)
  from leaves_obj_set [of c v kvs] "2.prems"(2) a a' show ?case by auto
next
  case (3 a c d cs v)
  from "3.prems"(1) obtain b child where
    b: "js_in c a = Inr b" and
    ch: "set_path (if b then js_get c a else JObj []) (d # cs) v = Inr child" and
    as: "js_assign a c child = Inr a'"
    by (auto split: sum.splits)
  from as obtain kvs where a: "a = JObj kvs" and a': "a' = JObj (obj_set c child kvs)"
    by (rule js_assign_object)
  let ?old = "if b then js_get c a else JObj []"
  have ih: "set (leaves_val child) \<subseteq> insert (d # cs, v) (set (leaves_val ?old))"
    by (rule "3.IH" [OF b ch "3.prems"(2)]) simp
  have old: "(\<lambda>qx. (c # fst qx, snd qx)) ` set (leaves_val ?old) \<subseteq> set (leaves_kvs kvs)"
  proof (cases b)
    case True
    with b a have "obj_has c kvs" by (auto dest: js_in_own)
    from leaves_of_entry [OF this] True a show ?thesis by (simp add: js_get_def)
  next
    case False
    then show ?thesis by simp
  qed
  have "set (leaves_val a') \<subseteq> (\<lambda>qx. (c # fst qx, snd qx)) ` set (leaves_val child) \<union> set (leaves_kvs kvs)"
    using leaves_obj_set [of c child kvs] a' by simp
  also have "\<dots> \<subseteq> insert (c # d # cs, v) (set (leaves_kvs kvs))"
  proof -
    have "(\<lambda>qx. (c # fst qx, snd qx)) ` set (leaves_val child)
        \<subseteq> (\<lambda>qx. (c # fst qx, snd qx)) ` insert (d # cs, v) (set (leaves_val ?old))"
      by (rule image_mono [OF ih])
    also have "\<dots> = insert (c # d # cs, v) ((\<lambda>qx. (c # fst qx, snd qx)) ` set (leaves_val ?old))"
      by simp
    also have "\<dots> \<subseteq> insert (c # d # cs, v) (set (leaves_kvs kvs))"
      using old by blast
    finally show ?thesis by blast
  qed
  finally show ?case using a by simp
qed

lemma value_at_leaf:
  "value_at p a = Some x \<Longrightarrow> is_leaf x \<Longrightarrow> (p, x) \<in> set (leaves_val a)"
proof (induction p arbitrary: a)
  case Nil
  then show ?case by simp
next
  case (Cons c cs)
  from Cons.prems(1) obtain kvs where a: "a = JObj kvs" and h: "obj_has c kvs"
    and v: "value_at cs (obj_get c kvs) = Some x"
    by (cases a) (auto split: if_splits)
  from Cons.IH [OF v Cons.prems(2)] have "(cs, x) \<in> set (leaves_val (obj_get c kvs))" .
  then have "(c # cs, x) \<in> (\<lambda>qx. (c # fst qx, snd qx)) ` set (leaves_val (obj_get c kvs))"
    by force
  with leaves_of_entry [OF h] a show ?case by auto
qed

lemma value_at_present: "value_at p a = Some x \<Longrightarrow> path_present p a"
proof (induction p arbitrary: a)
  case Nil
  then show ?case by simp
next
  case (Cons c cs)
  from Cons.prems obtain kvs where a: "a = JObj kvs" and h: "obj_has c kvs"
    and v: "value_at cs (obj_get c kvs) = Some x"
    by (cases a) (auto split: if_splits)
  from Cons.IH [OF v] a h show ?case by (simp add: js_in_def js_get_def)
qed


lemma resolved_unique:
  "resolved rs spec payload fp k v \<Longrightarrow> resolved rs spec payload fp k v' \<Longrightarrow> v = v'"
  by (auto simp: resolved_def)

lemma obj_set_not_Nil: "obj_set k v ps \<noteq> []"
  by (cases ps) simp_all

lemma record_calls_Nil: "(record_calls k calls errs = []) = (calls = [] \<and> errs = [])"
  unfolding record_calls_def
  by (induction calls arbitrary: errs) (simp_all add: obj_set_not_Nil)

lemma spec_step_clean:
  assumes "spec_step rs spec payload fp st k = Inr st'" and "fst st' = []"
  shows "fst st = [] \<and> (\<exists>v. resolved rs spec payload fp k v
                             \<and> setValueFromKey (snd st) k v = Inr (snd st'))"
  using assms
  by (auto simp: spec_step_def resolved_def obj_set_not_Nil record_calls_Nil
           split: sum.splits if_splits option.splits prod.splits)

lemma reduce_clean:
  "reduce (spec_step rs spec payload fp) keys st = Inr st' \<Longrightarrow> fst st' = [] \<Longrightarrow> fst st = []"
proof (induction keys arbitrary: st)
  case Nil
  then show ?case by simp
next
  case (Cons key keys)
  from Cons.prems(1) obtain st1 where
    s1: "spec_step rs spec payload fp st key = Inr st1" and
    r: "reduce (spec_step rs spec payload fp) keys st1 = Inr st'"
    by (auto split: sum.splits)
  from Cons.IH [OF r Cons.prems(2)] have "fst st1 = []" .
  with spec_step_clean [OF s1] show ?case by simp
qed

lemma spec_step_resolved:
  assumes "resolved rs spec payload fp k v" and "setValueFromKey out k v = Inr out'"
  shows "spec_step rs spec payload fp ([], out) k = Inr ([], out')"
  using assms by (auto simp: spec_step_def resolved_def record_calls_def)

lemma parseInt_str_kind: "is_leaf (parseInt_str s) \<and> parseInt_str s \<noteq> JNull"
  by (simp add: parseInt_str_def Let_def)

lemma parseFloat_str_kind: "parseFloat_str s = Inr v \<Longrightarrow> is_leaf v \<and> v \<noteq> JNull"
  by (auto simp: parseFloat_str_def Let_def split: if_splits)

lemma sanitize_kind:
  assumes "sanitize r x = Inr (calls, v)"
  shows "is_leaf v \<and> v \<noteq> JNull"
proof (cases r)
  case IntegerRule
  with assms show ?thesis
    using parseInt_str_kind
    by (auto simp: IntegerRule_sanitize_def parseInt_def Let_def split: sum.splits option.splits if_splits)
next
  case FloatRule
  with assms show ?thesis
    using parseFloat_str_kind
    by (auto simp: FloatRule_sanitize_def parseFloat_def Let_def
             split: sum.splits option.splits if_splits jsval.splits)
next
  case StringRule
  with assms show ?thesis
    by (cases x) (auto simp: StringRule_sanitize_def split: if_splits)
next
  case PhoneRule
  with assms show ?thesis
    by (cases "isPhone x"; cases x) (auto simp: PhoneRule_sanitize_def)
next
  case (TypedArrayRule r')
  with assms show ?thesis
    by (cases x) (auto simp: TypedArrayRule_sanitize_def split: sum.splits if_splits prod.splits)
qed

lemma resolved_kind: "resolved rs spec payload fp k v \<Longrightarrow> is_leaf v \<and> v \<noteq> JNull"
  unfolding resolved_def using sanitize_kind by blast

lemma values_final:
  assumes "reduce (spec_step rs spec payload fp) keys st = Inr st'"
      and "fst st' = []"
      and "\<forall>k'\<in>set keys. k' = k \<or> \<not> is_prefix (split_dot k') (split_dot k)"
      and "(\<exists>v. resolved rs spec payload fp k v \<and> value_at (split_dot k) (snd st) = Some v)
           \<or> k \<in> set keys"
  shows "\<exists>v. resolved rs spec payload fp k v \<and> value_at (split_dot k) (snd st') = Some v"
  using assms
proof (induction keys arbitrary: st)
  case Nil
  then show ?case by simp
next
  case (Cons key keys)
  from Cons.prems(1) obtain st1 where
    s1: "spec_step rs spec payload fp st key = Inr st1" and
    r: "reduce (spec_step rs spec payload fp) keys st1 = Inr st'"
    by (auto split: sum.splits)
  from reduce_clean [OF r Cons.prems(2)] have c1: "fst st1 = []" .
  from spec_step_clean [OF s1 c1] obtain v1 where
    rv: "resolved rs spec payload fp key v1" and
    sv: "setValueFromKey (snd st) key v1 = Inr (snd st1)" by blast
  from sv have sp: "set_path (snd st) (split_dot key) v1 = Inr (snd st1)"
    by (simp add: setValueFromKey_def)
  from Cons.prems(3) have rest:
    "\<forall>k'\<in>set keys. k' = k \<or> \<not> is_prefix (split_dot k') (split_dot k)" by simp
  have "(\<exists>v. resolved rs spec payload fp k v \<and> value_at (split_dot k) (snd st1) = Some v)
        \<or> k \<in> set keys"
  proof (cases "key = k")
    case True
    from value_at_set_path [OF sp split_dot_not_Nil] rv True show ?thesis by blast
  next
    case False
    with Cons.prems(3) have np: "\<not> is_prefix (split_dot key) (split_dot k)" by auto
    from Cons.prems(4) False
    have "(\<exists>v. resolved rs spec payload fp k v \<and> value_at (split_dot k) (snd st) = Some v)
          \<or> k \<in> set keys" by auto
    then show ?thesis
    proof
      assume "\<exists>v. resolved rs spec payload fp k v \<and> value_at (split_dot k) (snd st) = Some v"
      then obtain v where v: "resolved rs spec payload fp k v"
        and va: "value_at (split_dot k) (snd st) = Some v" by blast
      from resolved_kind [OF v] have "is_leaf v" by simp
      from value_at_other_path [OF sp va this np] v show ?thesis by blast
    next
      assume "k \<in> set keys"
      then show ?thesis by simp
    qed
  qed
  from Cons.IH [OF r Cons.prems(2) rest this] show ?case .
qed

lemma leaves_final:
  assumes "reduce (spec_step rs spec payload fp) keys st = Inr st'" and "fst st' = []"
  shows "set (leaves_val (snd st'))
           \<subseteq> set (leaves_val (snd st))
             \<union> {(split_dot k, v) | k v. k \<in> set keys \<and> resolved rs spec payload fp k v}"
  using assms
proof (induction keys arbitrary: st)
  case Nil
  then show ?case by simp
next
  case (Cons key keys)
  from Cons.prems(1) obtain st1 where
    s1: "spec_step rs spec payload fp st key = Inr st1" and
    r: "reduce (spec_step rs spec payload fp) keys st1 = Inr st'"
    by (auto split: sum.splits)
  from reduce_clean [OF r Cons.prems(2)] have c1: "fst st1 = []" .
  from spec_step_clean [OF s1 c1] obtain v1 where
    rv: "resolved rs spec payload fp key v1" and
    sv: "setValueFromKey (snd st) key v1 = Inr (snd st1)" by blast
  from sv have sp: "set_path (snd st) (split_dot key) v1 = Inr (snd st1)"
    by (simp add: setValueFromKey_def)
  from resolved_kind [OF rv] have "is_leaf v1" by simp
  from leaves_set_path [OF sp this split_dot_not_Nil]
  have a: "set (leaves_val (snd st1)) \<subseteq> insert (split_dot key, v1) (set (leaves_val (snd st)))" .
  from Cons.IH [OF r Cons.prems(2)]
  have b: "set (leaves_val (snd st'))
      \<subseteq> set (leaves_val (snd st1))
        \<union> {(split_dot k, v) | k v. k \<in> set keys \<and> resolved rs spec payload fp k v}" .
  show ?case
  proof
    fix qx
    assume "qx \<in> set (leaves_val (snd st'))"
    with b have "qx \<in> set (leaves_val (snd st1))
        \<or> qx \<in> {(split_dot k, v) | k v. k \<in> set keys \<and> resolved rs spec payload fp k v}" by blast
    then show "qx \<in> set (leaves_val (snd st))
        \<union> {(split_dot k, v) | k v. k \<in> set (key # keys) \<and> resolved rs spec payload fp k v}"
    proof
      assume "qx \<in> set (leaves_val (snd st1))"
      with a have "qx = (split_dot key, v1) \<or> qx \<in> set (leaves_val (snd st))" by blast
      with rv show ?thesis by auto
    next
      assume "qx \<in> {(split_dot k, v) | k v. k \<in> set keys \<and> resolved rs spec payload fp k v}"
      then show ?thesis by auto
    qed
  qed
qed

lemma reduce_mirror:
  assumes "reduce (spec_step rs spec payload fp) keys st = Inr st'"
      and "fst st' = []"
      and "\<forall>k\<in>set keys. \<forall>v. resolved rs spec payload fp k v \<longrightarrow> resolved rs spec payload2 fp2 k v"
  shows "reduce (spec_step rs spec payload2 fp2) keys ([], snd st) = Inr ([], snd st')"
  using assms
proof (induction keys arbitrary: st)
  case Nil
  then show ?case by simp
next
  case (Cons key keys)
  from Cons.prems(1) obtain st1 where
    s1: "spec_step rs spec payload fp st key = Inr st1" and
    r: "reduce (spec_step rs spec payload fp) keys st1 = Inr st'"
    by (auto split: sum.splits)
  from reduce_clean [OF r Cons.prems(2)] have c1: "fst st1 = []" .
  from spec_step_clean [OF s1 c1] obtain v1 where
    rv: "resolved rs spec payload fp key v1" and
    sv: "setValueFromKey (snd st) key v1 = Inr (snd st1)" by blast
  from Cons.prems(3) rv have "resolved rs spec payload2 fp2 key v1" by simp
  from spec_step_resolved [OF this sv]
  have s2: "spec_step rs spec payload2 fp2 ([], snd st) key = Inr ([], snd st1)" .
  from Cons.prems(3) have rest:
    "\<forall>k\<in>set keys. \<forall>v. resolved rs spec payload fp k v \<longrightarrow> resolved rs spec payload2 fp2 k v"
    by simp
  from Cons.IH [OF r Cons.prems(2) rest] s2 show ?case by simp
qed


lemma flat_leaf:
  "is_leaf val \<Longrightarrow> val \<noteq> JNull \<Longrightarrow>
   flat res key val pre
     = (if dot_join pre key = ''__proto__'' then Inl Unmodelled
        else Inr (obj_set (dot_join pre key) val res))"
  by (cases val) (simp_all add: dot_join_def Let_def)

lemma flat_no_proto:
  "flat res key val pre = Inr res' \<Longrightarrow> ''__proto__'' \<notin> fst ` set res
     \<Longrightarrow> ''__proto__'' \<notin> fst ` set res'"
  "flat_keys res kvs prefix = Inr res' \<Longrightarrow> ''__proto__'' \<notin> fst ` set res
     \<Longrightarrow> ''__proto__'' \<notin> fst ` set res'"
proof (induction res key val pre and res kvs prefix arbitrary: res' and res' rule: flat_flat_keys.induct)
  case (1 res key val pre)
  show ?case
  proof (cases "is_leaf val")
    case False
    then obtain kvs where v: "val = JObj kvs" by (cases val) simp_all
    with "1.prems" "1.IH" [OF refl v] show ?thesis by (simp add: dot_join_def)
  next
    case True
    show ?thesis
    proof (cases "val = JNull")
      case n: True
      with "1.prems"(1) show ?thesis by simp
    next
      case n: False
      from "1.prems"(1) flat_leaf [OF True n, of res key pre]
      have "dot_join pre key \<noteq> ''__proto__''" and "res' = obj_set (dot_join pre key) val res"
        by (auto split: if_splits)
      with "1.prems"(2) show ?thesis by (simp add: keys_obj_set)
    qed
  qed
next
  case (2 res prefix)
  then show ?case by simp
next
  case (3 res kv kvs prefix)
  from "3.prems"(1) obtain res1 where
    f: "flat res (fst kv) (snd kv) prefix = Inr res1" and
    g: "flat_keys res1 kvs prefix = Inr res'"
    by (auto split: sum.splits simp del: flat.simps)
  from "3.IH"(1) [OF f "3.prems"(2)] have "''__proto__'' \<notin> fst ` set res1" .
  from "3.IH"(2) [OF f g this] show ?case .
qed

lemma toFlatObject_no_proto:
  "toFlatObject spec = Inr flatSpec \<Longrightarrow> ''__proto__'' \<notin> set (map fst flatSpec)"
  using flat_no_proto(2) [of "[]" "own_props spec" "[]" flatSpec]
  by (auto simp: toFlatObject_def split: if_splits)

lemma set_path_object:
  "set_path a segs v = Inr a' \<Longrightarrow> segs \<noteq> [] \<Longrightarrow> \<exists>kvs. a' = JObj kvs"
proof (induction a segs v arbitrary: a' rule: set_path.induct)
  case (1 a v)
  then show ?case by simp
next
  case (2 a c v)
  then have "js_assign a c v = Inr a'" by simp
  then show ?case by (rule js_assign_object) simp
next
  case (3 a c d cs v)
  from "3.prems"(1) obtain child where "js_assign a c child = Inr a'"
    by (auto split: sum.splits)
  then show ?case by (rule js_assign_object) simp
qed

lemma reduce_object:
  assumes "reduce (spec_step rs spec payload fp) keys st = Inr st'"
      and "fst st' = []" and "\<exists>kvs. snd st = JObj kvs"
  shows "\<exists>kvs. snd st' = JObj kvs"
  using assms
proof (induction keys arbitrary: st)
  case Nil
  then show ?case by simp
next
  case (Cons key keys)
  from Cons.prems(1) obtain st1 where
    s1: "spec_step rs spec payload fp st key = Inr st1" and
    r: "reduce (spec_step rs spec payload fp) keys st1 = Inr st'"
    by (auto split: sum.splits)
  from reduce_clean [OF r Cons.prems(2)] have c1: "fst st1 = []" .
  from spec_step_clean [OF s1 c1] obtain v1 where
    "setValueFromKey (snd st) key v1 = Inr (snd st1)" by blast
  then have "set_path (snd st) (split_dot key) v1 = Inr (snd st1)"
    by (simp add: setValueFromKey_def)
  from set_path_object [OF this split_dot_not_Nil] have "\<exists>kvs. snd st1 = JObj kvs" .
  from Cons.IH [OF r Cons.prems(2) this] show ?case .
qed

lemma extra_fields_none:
  "set payloadKeys \<subseteq> set specKeys \<Longrightarrow> extra_fields specKeys payloadKeys errs = errs"
  unfolding extra_fields_def
  by (induction payloadKeys arbitrary: errs) auto

lemma isKeyExist_present:
  assumes "path_present (split_dot key) (JObj (own_props object))"
  shows "isKeyExist object key = Inr True"
proof -
  have "(\<exists>r. reduce isKeyExist_step (split_dot key) (JObj (own_props object)) = Inr r \<and> r \<noteq> JBool False)"
    using reduce_isKeyExist [of "JObj (own_props object)" "split_dot key"] assms by simp
  then show ?thesis by (auto simp: isKeyExist_def)
qed

subsection \<open>Stable outputs\<close>

lemma digit_cases:
  "d < 10 \<Longrightarrow> d = 0 \<or> d = 1 \<or> d = 2 \<or> d = 3 \<or> d = 4 \<or> d = 5 \<or> d = 6 \<or> d = 7 \<or> d = 8 \<or> d = (9::nat)"
  by arith

lemma digit_char_props:
  assumes "d < 10"
  shows "is_digit (digit_char d) \<and> digit_val (digit_char d) = d"
  using digit_cases [OF assms]
  by (elim disjE) (simp_all add: digit_char_def is_digit_def digit_val_def)

lemma takeWhile_digits: "list_all is_digit ds \<Longrightarrow> takeWhile is_digit ds = ds"
  by (simp add: list_all_iff)

lemma is_digit_not_space: "is_digit c \<Longrightarrow> \<not> is_space c"
  by (auto simp: is_digit_def is_space_def)

lemma is_digit_not_sign: "is_digit c \<Longrightarrow> c \<noteq> CHR ''-'' \<and> c \<noteq> CHR ''+''"
  by (auto simp: is_digit_def)

lemma nat_of_digits_snoc: "nat_of_digits (xs @ [c]) = 10 * nat_of_digits xs + digit_val c"
  by (simp add: nat_of_digits_def)

lemma nat_of_digits_single: "nat_of_digits [c] = digit_val c"
  by (simp add: nat_of_digits_def)

lemma digits_of_props:
  "list_all is_digit (digits_of n) \<and> digits_of n \<noteq> [] \<and> nat_of_digits (digits_of n) = n"
proof (induction n rule: digits_of.induct)
  case (1 n)
  show ?case
  proof (cases "n < 10")
    case True
    with digit_char_props [OF True] show ?thesis
      by (simp add: digits_of.simps [of n] nat_of_digits_single)
  next
    case False
    have m: "n mod 10 < 10" by simp
    from "1.IH" [OF False] digit_char_props [OF m] False show ?thesis
      by (simp add: digits_of.simps [of n] nat_of_digits_snoc)
  qed
qed

lemma parseInt_str_digits:
  assumes "list_all is_digit ds" and "ds \<noteq> []"
  shows "parseInt_str ds = JNum (of_nat (nat_of_digits ds))"
proof -
  from assms obtain c cs where ds: "ds = c # cs" and c: "is_digit c" by (cases ds) auto
  have dw: "dropWhile is_space ds = ds"
    using ds is_digit_not_space [OF c] by simp
  have h: "hd ds \<noteq> CHR ''-''" "hd ds \<noteq> CHR ''+''"
    using ds is_digit_not_sign [OF c] by simp_all
  show ?thesis
    by (simp add: parseInt_str_def Let_def dw h takeWhile_digits [OF assms(1)] assms(2))
qed

lemma parseInt_str_negative:
  assumes "list_all is_digit ds" and "ds \<noteq> []"
  shows "parseInt_str (CHR ''-'' # ds) = JNum (- of_nat (nat_of_digits ds))"
  by (simp add: parseInt_str_def Let_def is_space_def takeWhile_digits [OF assms(1)] assms(2))

lemma parseInt_integral:
  assumes "is_integral r" and "\<bar>r\<bar> < 10 ^ 21"
  shows "parseInt (JNum r) = Inr (JNum r)"
proof -
  let ?i = "\<lfloor>r\<rfloor>"
  from assms(1) have r: "r = of_int ?i" unfolding is_integral_def by (rule sym)
  have "\<bar>(of_int ?i :: rat)\<bar> < 10 ^ 21" using assms(2) r by simp
  then have "(of_int \<bar>?i\<bar> :: rat) < of_int (10 ^ 21)" by simp
  then have small: "\<bar>?i\<bar> < 10 ^ 21" by (simp only: of_int_less_iff)
  let ?ds = "digits_of (nat \<bar>?i\<bar>)"
  from digits_of_props [of "nat \<bar>?i\<bar>"] have d: "list_all is_digit ?ds" and ne: "?ds \<noteq> []"
    and v: "nat_of_digits ?ds = nat \<bar>?i\<bar>" by simp_all
  have "parseInt_str (int_to_string ?i) = JNum (of_int ?i)"
  proof (cases "?i < 0")
    case True
    with small have "int_to_string ?i = CHR ''-'' # ?ds" by (simp add: int_to_string_def Let_def)
    with parseInt_str_negative [OF d ne] v True show ?thesis by simp
  next
    case False
    with small have "int_to_string ?i = ?ds" by (simp add: int_to_string_def Let_def)
    with parseInt_str_digits [OF d ne] v False show ?thesis by simp
  qed
  with assms(1) r show ?thesis by (simp add: parseInt_def num_to_string_def)
qed

lemma rmatch_Seq_mem:
  "u \<in> set (rmatch a s) \<Longrightarrow> t \<in> set (rmatch b u) \<Longrightarrow> t \<in> set (rmatch (Seq a b) s)"
  by auto

lemma rmatch_times:
  "\<forall>c\<in>set p. c \<in> set cs \<Longrightarrow> t \<in> set (rmatch (times (length p) (Cls cs)) (p @ t))"
  by (induction p) auto

lemma rmatch_up_to:
  "\<forall>c\<in>set p. c \<in> set cs \<Longrightarrow> length p \<le> n \<Longrightarrow> t \<in> set (rmatch (up_to n (Cls cs)) (p @ t))"
proof (induction n arbitrary: p)
  case 0
  then show ?case by simp
next
  case (Suc n)
  show ?case
  proof (cases p)
    case Nil
    then show ?thesis by simp
  next
    case (Cons c q)
    with Suc.prems have "\<forall>c\<in>set q. c \<in> set cs" and "length q \<le> n" and "c \<in> set cs" by simp_all
    with Suc.IH [of q] Cons show ?thesis by simp
  qed
qed


lemma digit_in_phone_class: "x \<in> set ''0123456789'' \<Longrightarrow> x \<in> set ''0123456789- ''"
  by auto

lemma digits_in_digit_class: "list_all is_digit a \<Longrightarrow> \<forall>x\<in>set a. x \<in> set ''0123456789''"
  unfolding list_all_iff is_digit_def .

lemma digits_in_phone_class: "list_all is_digit b \<Longrightarrow> \<forall>x\<in>set b. x \<in> set ''0123456789- ''"
  unfolding list_all_iff is_digit_def by (blast intro: digit_in_phone_class)

lemma match_leading_seven: "rest \<in> set (rmatch (Seq (Alt (Chr CHR ''8'') (Alt (Chr CHR ''7'') (Seq (Chr CHR ''+'') (Chr CHR ''7''))))
              (Opt (Cls ''- ''))) (CHR ''7'' # rest))"
  by (simp add: Chr_def)

lemma match_three_digits: "list_all is_digit a \<Longrightarrow> length a = 3 \<Longrightarrow> t \<in> set (rmatch (times 3 digit) (a @ t))"
proof -
  assume a: "list_all is_digit a" and l: "length a = 3"
  have "t \<in> set (rmatch (times (length a) (Cls ''0123456789'')) (a @ t))"
    by (rule rmatch_times [OF digits_in_digit_class [OF a]])
  then show ?thesis unfolding l digit_def .
qed

lemma match_seven_digits: "list_all is_digit b \<Longrightarrow> length b = 7 \<Longrightarrow> t \<in> set (rmatch (times 7 (Cls ''0123456789- '')) (b @ t))"
proof -
  assume b: "list_all is_digit b" and l: "length b = 7"
  have "t \<in> set (rmatch (times (length b) (Cls ''0123456789- '')) (b @ t))"
    by (rule rmatch_times [OF digits_in_phone_class [OF b]])
  then show ?thesis unfolding l .
qed

lemma match_up_to_three: "list_all is_digit c \<Longrightarrow> length c \<le> 3 \<Longrightarrow> [] \<in> set (rmatch (up_to 3 (Cls ''0123456789- '')) c)"
proof -
  assume c: "list_all is_digit c" and l: "length c \<le> 3"
  have "[] \<in> set (rmatch (up_to 3 (Cls ''0123456789- '')) (c @ []))"
    by (rule rmatch_up_to [OF digits_in_phone_class [OF c] l])
  then show ?thesis by (simp only: append_Nil2)
qed

lemma rmatch_Opt_skip: "s \<in> set (rmatch (Opt a) s)"
  by simp


lemma phone_re_digits:
  assumes "list_all is_digit a" and "length a = 3"
      and "list_all is_digit b" and "length b = 7"
      and "list_all is_digit c" and "length c \<le> 3"
  shows "re_test phone_re (CHR ''7'' # a @ b @ c)"
proof -
  have q: "b @ c \<in> set (rmatch (Seq (Opt (Chr CHR '')'')) (Opt (Cls ''- ''))) (b @ c))"
    by (rule rmatch_Seq_mem [OF rmatch_Opt_skip rmatch_Opt_skip])
  have m: "b @ c \<in> set (rmatch (Seq (times 3 digit) (Seq (Opt (Chr CHR '')'')) (Opt (Cls ''- '')))) (a @ b @ c))"
    by (rule rmatch_Seq_mem [OF match_three_digits [OF assms(1,2)] q])
  have p2: "b @ c \<in> set (rmatch (Seq (Opt (Chr CHR ''('')) (Seq (times 3 digit) (Seq (Opt (Chr CHR '')'')) (Opt (Cls ''- ''))))) (a @ b @ c))"
    by (rule rmatch_Seq_mem [OF rmatch_Opt_skip m])
  have p3: "[] \<in> set (rmatch (Seq (times 7 (Cls ''0123456789- '')) (up_to 3 (Cls ''0123456789- ''))) (b @ c))"
    by (rule rmatch_Seq_mem [OF match_seven_digits [OF assms(3,4)] match_up_to_three [OF assms(5,6)]])
  have p23: "[] \<in> set (rmatch (Seq (Seq (Opt (Chr CHR ''('')) (Seq (times 3 digit) (Seq (Opt (Chr CHR '')'')) (Opt (Cls ''- '')))))
         (Seq (times 7 (Cls ''0123456789- '')) (up_to 3 (Cls ''0123456789- '')))) (a @ b @ c))"
    by (rule rmatch_Seq_mem [OF p2 p3])
  have "[] \<in> set (rmatch phone_re (CHR ''7'' # a @ b @ c))"
    unfolding phone_re_def by (rule rmatch_Seq_mem [OF match_leading_seven p23])
  then show ?thesis unfolding re_test_def .
qed

lemma stable_phone:
  assumes "list_all is_digit s" and "11 \<le> length s" and "length s \<le> 14" and "hd s = CHR ''7''"
  shows "PhoneRule_sanitize (JStr s) = Inr ([], JStr s)"
proof -
  from assms(2) obtain t where s: "s = hd s # t" by (cases s) auto
  with assms(4) have s7: "s = CHR ''7'' # t" by simp
  let ?a = "take 3 t" and ?b = "take 7 (drop 3 t)" and ?c = "drop 10 t"
  from s7 assms(2,3) have lt: "10 \<le> length t" "length t \<le> 13" by auto
  from s7 assms(1) have dt: "list_all is_digit t" by simp
  have split: "t = ?a @ ?b @ ?c"
  proof -
    have "drop 3 t = take 7 (drop 3 t) @ drop 7 (drop 3 t)"
      by (rule append_take_drop_id [symmetric])
    then have "drop 3 t = ?b @ ?c" by simp
    moreover have "t = take 3 t @ drop 3 t" by (rule append_take_drop_id [symmetric])
    ultimately show ?thesis by simp
  qed
  have da: "list_all is_digit ?a" and db: "list_all is_digit ?b" and dc: "list_all is_digit ?c"
    using dt by (auto simp: list_all_iff dest: in_set_takeD in_set_dropD)
  have la: "length ?a = 3" and lb: "length ?b = 7" and lc: "length ?c \<le> 3" using lt by auto
  from phone_re_digits [OF da la db lb dc lc] split s7
  have "re_test phone_re s" by simp
  then have p: "isPhone (JStr s)" by (simp add: isPhone_def re_test_val_def)
  have f: "filter is_digit s = s" using assms(1) by (simp add: list_all_iff)
  have "replace_leading_8 s = s" using s7 by simp
  with p f show ?thesis by (simp add: PhoneRule_sanitize_def strip_non_digits_def)
qed

lemma map_items_unchanged:
  "\<forall>x\<in>set xs. inner x = Inr ([], x) \<Longrightarrow> map_items inner i xs acc = Inr (acc, xs)"
  by (induction xs arbitrary: i acc) simp_all

lemma stable_sanitize: "stable r v \<Longrightarrow> sanitize r v = Inr ([], v)"
proof (induction r arbitrary: v)
  case IntegerRule
  then obtain q where v: "v = JNum q" and i: "is_integral q" and s: "\<bar>q\<bar> < 10 ^ 21"
    by (cases v) auto
  with parseInt_integral [OF i s] show ?case by (simp add: IntegerRule_sanitize_def)
next
  case FloatRule
  then obtain q where "v = JNum q" and "\<not> is_integral q" by (cases v) auto
  then show ?case by (simp add: FloatRule_sanitize_def parseFloat_def)
next
  case StringRule
  then show ?case by (simp add: StringRule_sanitize_def)
next
  case PhoneRule
  then obtain s where v: "v = JStr s" and "list_all is_digit s" and "11 \<le> length s"
    and "length s \<le> 14" and "hd s = CHR ''7''" by (cases v) auto
  with stable_phone [of s] show ?case by simp
next
  case (TypedArrayRule r)
  then obtain xs where v: "v = JArr xs" and a: "list_all (stable r) xs" by (cases v) auto
  from a TypedArrayRule.IH have "\<forall>x\<in>set xs. sanitize r x = Inr ([], x)"
    by (simp add: list_all_iff)
  from map_items_unchanged [OF this, of 0 "[]"] v show ?case
    by (simp add: TypedArrayRule_sanitize_def)
qed

subsection \<open>The second call\<close>

lemma resanitize_fixed_leaves:
  assumes "sanitizeBySpec this spec payload = Inr (this', S)"
      and "errors this' = []"
      and "toFlatObject spec = Inr flatSpec"
      and "\<forall>k\<in>set (map fst flatSpec). [] \<notin> set (split_dot k)"
      and "\<forall>k\<in>set (map fst flatSpec). \<forall>k'\<in>set (map fst flatSpec).
             k' = k \<or> \<not> is_prefix (split_dot k') (split_dot k)"
      and "\<forall>k\<in>set (map fst flatSpec). \<forall>ruleName name r v.
             getValueFromKey spec k JNull = Inr ruleName \<longrightarrow> to_string ruleName = Some name \<longrightarrow>
             map_of (rules this) name = Some r \<longrightarrow> value_at (split_dot k) S = Some v \<longrightarrow>
             sanitize r v = Inr ([], v)"
  shows "sanitizeBySpec this' spec S = Inr (this', S)"
proof -
  let ?keys = "map fst flatSpec"
  let ?rs = "rules this"
  from assms(1,3) obtain fp errs0 errs' where
    fp: "toFlatObject payload = Inr fp" and
    r1: "reduce (spec_step ?rs spec payload fp) ?keys (errs0, JObj []) = Inr (errs', S)" and
    t: "this' = this \<lparr> errors := errs' \<rparr>"
    by (auto simp: sanitizeBySpec_def Let_def split: sum.splits prod.splits)
  from t assms(2) have e: "errs' = []" by simp
  have c: "fst (errs', S) = []" using e by simp
  have rs': "rules this' = ?rs" using t by simp
  \<comment> \<open>the value at each key of the spec\<close>
  have val: "\<exists>v. resolved ?rs spec payload fp k v \<and> value_at (split_dot k) S = Some v"
    if k: "k \<in> set ?keys" for k
  proof -
    from assms(5) k have pf: "\<forall>k'\<in>set ?keys. k' = k \<or> \<not> is_prefix (split_dot k') (split_dot k)"
      by blast
    from values_final [OF r1 c pf] k show ?thesis by simp
  qed
  \<comment> \<open>the leaves of the output\<close>
  have lv: "\<exists>k v. qx = (split_dot k, v) \<and> k \<in> set ?keys \<and> resolved ?rs spec payload fp k v"
    if "qx \<in> set (leaves_val S)" for qx
    using leaves_final [OF r1 c] that by auto
  from reduce_object [OF r1 c] obtain kvs where S: "S = JObj kvs" by auto
  have np: "''__proto__'' \<notin> set ?keys" by (rule toFlatObject_no_proto [OF assms(3)])
  have cond: "\<forall>qx\<in>set (leaves_kvs kvs). snd qx \<noteq> JNull \<and> pathkey [] (fst qx) \<noteq> ''__proto__''"
  proof
    fix qx
    assume "qx \<in> set (leaves_kvs kvs)"
    with S have "qx \<in> set (leaves_val S)" by simp
    from lv [OF this] obtain k v where q: "qx = (split_dot k, v)" and k: "k \<in> set ?keys"
      and rv: "resolved ?rs spec payload fp k v" by blast
    from assms(4) k have pk: "pathkey [] (split_dot k) = k" by (blast intro: pathkey_split_dot)
    from k np have "k \<noteq> ''__proto__''" by blast
    with q pk resolved_kind [OF rv]
    show "snd qx \<noteq> JNull \<and> pathkey [] (fst qx) \<noteq> ''__proto__''" by simp
  qed
  let ?flatS = "put_leaves [] [] (leaves_kvs kvs)"
  have fs: "toFlatObject S = Inr ?flatS"
    using flat_leaves(2) [OF cond, of "[]"] S by (simp add: toFlatObject_def own_props_def)
  have sub: "set (map fst ?flatS) \<subseteq> set ?keys"
  proof
    fix k
    assume "k \<in> set (map fst ?flatS)"
    then have "k \<in> (\<lambda>qx. pathkey [] (fst qx)) ` set (leaves_kvs kvs)"
      using put_leaves_keys [of "[]" "[]" "leaves_kvs kvs"] by simp
    then obtain qx where m: "qx \<in> set (leaves_kvs kvs)" and kq: "k = pathkey [] (fst qx)" by blast
    from m S have "qx \<in> set (leaves_val S)" by simp
    from lv [OF this] obtain k' v where q: "qx = (split_dot k', v)" and k': "k' \<in> set ?keys" by blast
    from assms(4) k' have "pathkey [] (split_dot k') = k'" by (blast intro: pathkey_split_dot)
    with kq q k' show "k \<in> set ?keys" by simp
  qed
  have look: "obj_get k ?flatS = v"
    if k: "k \<in> set ?keys" and rv: "resolved ?rs spec payload fp k v" for k v
  proof -
    from val [OF k] obtain v' where rv': "resolved ?rs spec payload fp k v'"
      and va: "value_at (split_dot k) S = Some v'" by blast
    from resolved_unique [OF rv rv'] va have va: "value_at (split_dot k) S = Some v" by simp
    from value_at_leaf [OF va] resolved_kind [OF rv] S
    have mem: "(split_dot k, v) \<in> set (leaves_kvs kvs)" by simp
    from assms(4) k have pk: "pathkey [] (split_dot k) = k" by (blast intro: pathkey_split_dot)
    have uni: "\<forall>qx\<in>set (leaves_kvs kvs). pathkey [] (fst qx) = k \<longrightarrow> snd qx = v"
    proof (intro ballI impI)
      fix qx
      assume m: "qx \<in> set (leaves_kvs kvs)" and e: "pathkey [] (fst qx) = k"
      from m S have "qx \<in> set (leaves_val S)" by simp
      from lv [OF this] obtain k' w where q: "qx = (split_dot k', w)" and k': "k' \<in> set ?keys"
        and rw: "resolved ?rs spec payload fp k' w" by blast
      from assms(4) k' have "pathkey [] (split_dot k') = k'" by (blast intro: pathkey_split_dot)
      with e q have "k' = k" by simp
      with rw rv q show "snd qx = v" by (auto dest: resolved_unique)
    qed
    have "\<exists>qx\<in>set (leaves_kvs kvs). pathkey [] (fst qx) = k"
      using mem pk by force
    with put_leaves_map_of [OF uni, of "[]"] show ?thesis by (simp add: obj_get_def)
  qed
  have res2: "\<forall>k\<in>set ?keys. \<forall>v. resolved ?rs spec payload fp k v \<longrightarrow> resolved ?rs spec S ?flatS k v"
  proof (intro ballI allI impI)
    fix k v
    assume k: "k \<in> set ?keys" and rv: "resolved ?rs spec payload fp k v"
    from val [OF k] obtain v' where rv': "resolved ?rs spec payload fp k v'"
      and va': "value_at (split_dot k) S = Some v'" by blast
    from resolved_unique [OF rv rv'] va' have va: "value_at (split_dot k) S = Some v" by simp
    from value_at_present [OF va] S have "path_present (split_dot k) (JObj (own_props S))"
      by (simp add: own_props_def)
    then have ex: "isKeyExist S k = Inr True" by (rule isKeyExist_present)
    from rv obtain ruleName name r where
      g: "getValueFromKey spec k JNull = Inr ruleName" and
      n: "to_string ruleName = Some name" and
      m: "map_of ?rs name = Some r"
      by (auto simp: resolved_def)
    from assms(6) k g n m va have "sanitize r v = Inr ([], v)" by blast
    with look [OF k rv] ex g n m show "resolved ?rs spec S ?flatS k v"
      by (auto simp: resolved_def)
  qed
  from reduce_mirror [OF r1 c res2]
  have r2: "reduce (spec_step ?rs spec S ?flatS) ?keys ([], JObj []) = Inr ([], S)" by simp
  from extra_fields_none [OF sub] assms(2)
  have ef: "extra_fields ?keys (map fst ?flatS) (errors this') = []" by simp
  have "this' \<lparr> errors := [] \<rparr> = this'" using assms(2) by simp
  with r2 ef fs assms(2,3) rs' show ?thesis
    by (simp add: sanitizeBySpec_def Let_def)
qed

text \<open>
  Claim C5, as amended. If \<open>sanitizeBySpec\<close> produces the output \<open>S\<close> with an
  empty error report, and every leaf of \<open>S\<close> is a stable output of the rule of its
  path (an integral number of magnitude below \<open>10^21\<close> for \<open>int\<close>, a
  non-integral number for \<open>float\<close>, a string for \<open>string\<close>, a string of 11 to
  14 digits beginning with \<open>7\<close> for \<open>phone\<close>, an array of such values for the
  array rules), then sanitizing \<open>S\<close> against the same spec returns \<open>S\<close> again
  with an empty error report. (The keys of the flattened spec have no empty segment,
  and none is a prefix of another, segment by segment.)
\<close>

theorem resanitize_stable_payload:
  assumes "sanitizeBySpec this spec payload = Inr (this', S)"
      and "errors this' = []"
      and "toFlatObject spec = Inr flatSpec"
      and "\<forall>k\<in>set (map fst flatSpec). [] \<notin> set (split_dot k)"
      and "\<forall>k\<in>set (map fst flatSpec). \<forall>k'\<in>set (map fst flatSpec).
             k' = k \<or> \<not> is_prefix (split_dot k') (split_dot k)"
      and "\<forall>k\<in>set (map fst flatSpec). \<forall>ruleName name r v.
             getValueFromKey spec k JNull = Inr ruleName \<longrightarrow> to_string ruleName = Some name \<longrightarrow>
             map_of (rules this) name = Some r \<longrightarrow> value_at (split_dot k) S = Some v \<longrightarrow>
             stable r v"
  shows "sanitizeBySpec this' spec S = Inr (this', S)"
proof -
  have fixed: "\<forall>k\<in>set (map fst flatSpec). \<forall>ruleName name r v.
             getValueFromKey spec k JNull = Inr ruleName \<longrightarrow> to_string ruleName = Some name \<longrightarrow>
             map_of (rules this) name = Some r \<longrightarrow> value_at (split_dot k) S = Some v \<longrightarrow>
             sanitize r v = Inr ([], v)"
  proof (intro ballI allI impI)
    fix k ruleName name r v
    assume "k \<in> set (map fst flatSpec)"
      and "getValueFromKey spec k JNull = Inr ruleName" and "to_string ruleName = Some name"
      and "map_of (rules this) name = Some r" and "value_at (split_dot k) S = Some v"
    with assms(6) have "stable r v" by blast
    then show "sanitize r v = Inr ([], v)" by (rule stable_sanitize)
  qed
  show ?thesis by (rule resanitize_fixed_leaves [OF assms(1-5) fixed])
qed

text \<open>A nested spec with a string and an integer leaf.\<close>

theorem resanitize_stable_payload_witness:
  "sanitizeBySpec StandardSanitizer
      (JObj [(''a'', JStr ''string''), (''b'', JObj [(''c'', JStr ''int'')])])
      (JObj [(''a'', JStr ''x''), (''b'', JObj [(''c'', JStr ''12'')])])
     = Inr (StandardSanitizer, JObj [(''a'', JStr ''x''), (''b'', JObj [(''c'', JNum 12)])])
   \<and> errors StandardSanitizer = []
   \<and> sanitizeBySpec StandardSanitizer
      (JObj [(''a'', JStr ''string''), (''b'', JObj [(''c'', JStr ''int'')])])
      (JObj [(''a'', JStr ''x''), (''b'', JObj [(''c'', JNum 12)])])
     = Inr (StandardSanitizer, JObj [(''a'', JStr ''x''), (''b'', JObj [(''c'', JNum 12)])])"
proof -
  let ?spec = "JObj [(''a'', JStr ''string''), (''b'', JObj [(''c'', JStr ''int'')])]"
  let ?payload = "JObj [(''a'', JStr ''x''), (''b'', JObj [(''c'', JStr ''12'')])]"
  let ?S = "JObj [(''a'', JStr ''x''), (''b'', JObj [(''c'', JNum 12)])]"
  let ?flatSpec = "[(''a'', JStr ''string''), (''b.c'', JStr ''int'')]"
  have a: "sanitizeBySpec StandardSanitizer ?spec ?payload = Inr (StandardSanitizer, ?S)"
    by (simp add: sanitizer_defs path_defs rule_defs regex_defs)
  have b: "errors StandardSanitizer = []"
    by (simp add: StandardSanitizer_def new_Sanitizer_def)
  have c: "toFlatObject ?spec = Inr ?flatSpec"
    by (simp add: toFlatObject_def own_props_def)
  have d: "\<forall>k\<in>set (map fst ?flatSpec). [] \<notin> set (split_dot k)"
    by simp
  have e: "\<forall>k\<in>set (map fst ?flatSpec). \<forall>k'\<in>set (map fst ?flatSpec).
             k' = k \<or> \<not> is_prefix (split_dot k') (split_dot k)"
    by simp
  have f: "\<forall>k\<in>set (map fst ?flatSpec). \<forall>ruleName name r v.
             getValueFromKey ?spec k JNull = Inr ruleName \<longrightarrow> to_string ruleName = Some name \<longrightarrow>
             map_of (rules StandardSanitizer) name = Some r \<longrightarrow> value_at (split_dot k) ?S = Some v \<longrightarrow>
             stable r v"
    by (auto simp: path_defs StandardSanitizer_def new_Sanitizer_def is_integral_def)
  from resanitize_stable_payload [OF a b c d e f] a b show ?thesis by blast
qed

end
